theory Spec2Isabelle
  imports Main "HOL-Library.Word"
begin

unbundle bit_operations_syntax

section \<open>Integer hashing (linux/hash.h)\<close>

text \<open>
  \<^verbatim>\<open>uint32_t\<close> is \<open>32 word\<close>, \<^verbatim>\<open>uint64_t\<close> is \<open>64 word\<close>, \<^verbatim>\<open>unsigned int\<close> is
  \<open>32 word\<close>; multiplication and subtraction wrap. \<^verbatim>\<open>>>\<close> on an unsigned value is
  \<open>drop_bit\<close>. C leaves a shift by the width or more undefined; \<open>drop_bit\<close> yields 0
  there, and the theorems about the hashes assume \<open>1 \<le> bits \<le> 32\<close>, where every
  shift count is below the width.
\<close>

definition GOLDEN_RATIO_32 :: "32 word" where
  "GOLDEN_RATIO_32 = 0x61C88647"

definition GOLDEN_RATIO_64 :: "64 word" where
  "GOLDEN_RATIO_64 = 0x61C8864680B583EB"

text \<open>\<^verbatim>\<open>__hash_32\<close>: the multiplication alone.\<close>

definition hash_32_mul :: "32 word \<Rightarrow> 32 word" where
  "hash_32_mul val = val * GOLDEN_RATIO_32"

definition hash_32 :: "32 word \<Rightarrow> 32 word \<Rightarrow> 32 word" where
  "hash_32 val bits = drop_bit (unat (32 - bits)) (hash_32_mul val)"

text \<open>
  \<^verbatim>\<open>hash_64\<close> is compiled in one of two ways, chosen by \<^verbatim>\<open>BITS_PER_LONG\<close>, which is
  a parameter here. The 64-bit product is shifted as a 64-bit value and then
  truncated to the \<^verbatim>\<open>uint32_t\<close> result; in the other branch the upper half of
  \<open>val\<close> is truncated to 32 bits on its way into \<^verbatim>\<open>__hash_32\<close>.
\<close>

definition hash_64 :: "nat \<Rightarrow> 64 word \<Rightarrow> 32 word \<Rightarrow> 32 word" where
  "hash_64 BITS_PER_LONG val bits =
     (if BITS_PER_LONG = 64
      then ucast (drop_bit (unat (64 - bits)) (val * GOLDEN_RATIO_64))
      else hash_32 (ucast val XOR hash_32_mul (ucast (drop_bit 32 val))) bits)"


section \<open>Circular doubly linked list (linux/list.h)\<close>

text \<open>
  Pointers are 64-bit addresses. A \<^verbatim>\<open>struct list_head\<close> is a record of its two
  pointers, and the memory holding list heads is a function from addresses to such
  records: the list code never allocates, it only reads and writes the two fields
  of structures owned by the caller. Every C statement is one step of a \<open>let\<close>
  chain in which \<open>s\<close> is the memory after the statements before it, so a read such
  as \<^verbatim>\<open>_new->next->prev\<close> sees the writes that precede it.
  \<^verbatim>\<open>READ_ONCE\<close> and \<^verbatim>\<open>WRITE_ONCE\<close> are plain reads and writes in this
  single-threaded model. A dereference of \<^verbatim>\<open>NULL\<close> or of a poison address, which
  faults on the machine, reads or writes a cell of the function like any other; the
  theorems assume well-formed lists, where no such dereference happens.
\<close>

type_synonym addr = "64 word"

definition NULL :: addr where
  "NULL = 0"

definition POISON_POINTER_DELTA :: addr where
  "POISON_POINTER_DELTA = 0"

definition LIST_POISON1 :: addr where
  "LIST_POISON1 = 0x100 + POISON_POINTER_DELTA"

definition LIST_POISON2 :: addr where
  "LIST_POISON2 = 0x122 + POISON_POINTER_DELTA"

record list_head =
  "next" :: addr
  prev :: addr

type_synonym heap = "addr \<Rightarrow> list_head"

text \<open>\<^verbatim>\<open>p->next = v\<close> and \<^verbatim>\<open>p->prev = v\<close>.\<close>

definition set_next :: "addr \<Rightarrow> addr \<Rightarrow> heap \<Rightarrow> heap" where
  "set_next p v s = s(p := (s p)\<lparr>next := v\<rparr>)"

definition set_prev :: "addr \<Rightarrow> addr \<Rightarrow> heap \<Rightarrow> heap" where
  "set_prev p v s = s(p := (s p)\<lparr>prev := v\<rparr>)"

definition INIT_LIST_HEAD :: "addr \<Rightarrow> heap \<Rightarrow> heap" where
  "INIT_LIST_HEAD list s =
     (let s = set_next list list s
      in set_prev list list s)"

text \<open>
  The functions the source names with two leading underscores carry the prefix
  \<open>raw_\<close> here: \<open>raw_list_add\<close> is \<^verbatim>\<open>__list_add\<close>, and so on. A C variable
  called \<^verbatim>\<open>last\<close> is \<open>last'\<close>.
\<close>

definition raw_list_add :: "addr \<Rightarrow> addr \<Rightarrow> addr \<Rightarrow> heap \<Rightarrow> heap" where
  "raw_list_add new prv nxt s =
     (let s = set_prev nxt new s;
          s = set_next new nxt s;
          s = set_prev new prv s
      in set_next prv new s)"

definition list_add :: "addr \<Rightarrow> addr \<Rightarrow> heap \<Rightarrow> heap" where
  "list_add new head s = raw_list_add new head (next (s head)) s"

definition list_add_tail :: "addr \<Rightarrow> addr \<Rightarrow> heap \<Rightarrow> heap" where
  "list_add_tail new head s = raw_list_add new (prev (s head)) head s"

definition raw_list_del :: "addr \<Rightarrow> addr \<Rightarrow> heap \<Rightarrow> heap" where
  "raw_list_del prv nxt s =
     (let s = set_prev nxt prv s
      in set_next prv nxt s)"

definition raw_list_del_entry :: "addr \<Rightarrow> heap \<Rightarrow> heap" where
  "raw_list_del_entry entry s = raw_list_del (prev (s entry)) (next (s entry)) s"

definition list_del :: "addr \<Rightarrow> heap \<Rightarrow> heap" where
  "list_del entry s =
     (let s = raw_list_del_entry entry s;
          s = set_next entry LIST_POISON1 s
      in set_prev entry LIST_POISON2 s)"

definition list_replace :: "addr \<Rightarrow> addr \<Rightarrow> heap \<Rightarrow> heap" where
  "list_replace old new s =
     (let s = set_next new (next (s old)) s;
          s = set_prev (next (s new)) new s;
          s = set_prev new (prev (s old)) s
      in set_next (prev (s new)) new s)"

definition list_replace_init :: "addr \<Rightarrow> addr \<Rightarrow> heap \<Rightarrow> heap" where
  "list_replace_init old new s =
     (let s = list_replace old new s
      in INIT_LIST_HEAD old s)"

definition list_swap :: "addr \<Rightarrow> addr \<Rightarrow> heap \<Rightarrow> heap" where
  "list_swap entry1 entry2 s =
     (let pos = prev (s entry2);
          s = list_del entry2 s;
          s = list_replace entry1 entry2 s;
          pos = (if pos = entry1 then entry2 else pos)
      in list_add entry1 pos s)"

definition list_del_init :: "addr \<Rightarrow> heap \<Rightarrow> heap" where
  "list_del_init entry s =
     (let s = raw_list_del_entry entry s
      in INIT_LIST_HEAD entry s)"

definition list_move :: "addr \<Rightarrow> addr \<Rightarrow> heap \<Rightarrow> heap" where
  "list_move list head s =
     (let s = raw_list_del_entry list s
      in list_add list head s)"

definition list_move_tail :: "addr \<Rightarrow> addr \<Rightarrow> heap \<Rightarrow> heap" where
  "list_move_tail list head s =
     (let s = raw_list_del_entry list s
      in list_add_tail list head s)"

definition list_bulk_move_tail :: "addr \<Rightarrow> addr \<Rightarrow> addr \<Rightarrow> heap \<Rightarrow> heap" where
  "list_bulk_move_tail head first last' s =
     (let s = set_next (prev (s first)) (next (s last')) s;
          s = set_prev (next (s last')) (prev (s first)) s;
          s = set_next (prev (s head)) first s;
          s = set_prev first (prev (s head)) s;
          s = set_next last' head s
      in set_prev head last' s)"

definition list_is_first :: "heap \<Rightarrow> addr \<Rightarrow> addr \<Rightarrow> bool" where
  "list_is_first s list head = (prev (s list) = head)"

definition list_is_last :: "heap \<Rightarrow> addr \<Rightarrow> addr \<Rightarrow> bool" where
  "list_is_last s list head = (next (s list) = head)"

definition list_empty :: "heap \<Rightarrow> addr \<Rightarrow> bool" where
  "list_empty s head = (next (s head) = head)"

definition list_rotate_left :: "addr \<Rightarrow> heap \<Rightarrow> heap" where
  "list_rotate_left head s =
     (if \<not> list_empty s head
      then (let first = next (s head) in list_move_tail first head s)
      else s)"

definition list_is_singular :: "heap \<Rightarrow> addr \<Rightarrow> bool" where
  "list_is_singular s head = (\<not> list_empty s head \<and> next (s head) = prev (s head))"

definition raw_list_cut_position :: "addr \<Rightarrow> addr \<Rightarrow> addr \<Rightarrow> heap \<Rightarrow> heap" where
  "raw_list_cut_position list head entry s =
     (let new_first = next (s entry);
          s = set_next list (next (s head)) s;
          s = set_prev (next (s list)) list s;
          s = set_prev list entry s;
          s = set_next entry list s;
          s = set_next head new_first s
      in set_prev new_first head s)"

text \<open>The two early returns of \<^verbatim>\<open>list_cut_position\<close> leave the memory as it is.\<close>

definition list_cut_position :: "addr \<Rightarrow> addr \<Rightarrow> addr \<Rightarrow> heap \<Rightarrow> heap" where
  "list_cut_position list head entry s =
     (if list_empty s head then s
      else if list_is_singular s head \<and> (next (s head) \<noteq> entry \<and> head \<noteq> entry) then s
      else if entry = head then INIT_LIST_HEAD list s
      else raw_list_cut_position list head entry s)"

definition list_cut_before :: "addr \<Rightarrow> addr \<Rightarrow> addr \<Rightarrow> heap \<Rightarrow> heap" where
  "list_cut_before list head entry s =
     (if next (s head) = entry then INIT_LIST_HEAD list s
      else
        (let s = set_next list (next (s head)) s;
             s = set_prev (next (s list)) list s;
             s = set_prev list (prev (s entry)) s;
             s = set_next (prev (s list)) list s;
             s = set_next head entry s
         in set_prev entry head s))"

definition raw_list_splice :: "addr \<Rightarrow> addr \<Rightarrow> addr \<Rightarrow> heap \<Rightarrow> heap" where
  "raw_list_splice list prv nxt s =
     (let first = next (s list);
          last' = prev (s list);
          s = set_prev first prv s;
          s = set_next prv first s;
          s = set_next last' nxt s
      in set_prev nxt last' s)"

definition list_splice :: "addr \<Rightarrow> addr \<Rightarrow> heap \<Rightarrow> heap" where
  "list_splice list head s =
     (if \<not> list_empty s list then raw_list_splice list head (next (s head)) s else s)"

definition list_splice_tail :: "addr \<Rightarrow> addr \<Rightarrow> heap \<Rightarrow> heap" where
  "list_splice_tail list head s =
     (if \<not> list_empty s list then raw_list_splice list (prev (s head)) head s else s)"

definition list_splice_init :: "addr \<Rightarrow> addr \<Rightarrow> heap \<Rightarrow> heap" where
  "list_splice_init list head s =
     (if \<not> list_empty s list
      then (let s = raw_list_splice list head (next (s head)) s
            in INIT_LIST_HEAD list s)
      else s)"

definition list_splice_tail_init :: "addr \<Rightarrow> addr \<Rightarrow> heap \<Rightarrow> heap" where
  "list_splice_tail_init list head s =
     (if \<not> list_empty s list
      then (let s = raw_list_splice list (prev (s head)) head s
            in INIT_LIST_HEAD list s)
      else s)"

subsection \<open>Iteration\<close>

text \<open>
  \<^verbatim>\<open>list_for_each(pos, head)\<close> with a body that records \<open>pos\<close>. The loop runs until
  the cursor meets the head again, which an ill-formed memory may never allow, so
  it is given fuel: \<open>None\<close> means that the fuel ran out before the loop ended.
\<close>

fun list_for_each_from :: "nat \<Rightarrow> heap \<Rightarrow> addr \<Rightarrow> addr \<Rightarrow> addr list option" where
  "list_for_each_from 0 s head pos = None"
| "list_for_each_from (Suc k) s head pos =
     (if pos \<noteq> head
      then map_option (\<lambda>vs. pos # vs) (list_for_each_from k s head (next (s pos)))
      else Some [])"

definition list_for_each :: "nat \<Rightarrow> heap \<Rightarrow> addr \<Rightarrow> addr list option" where
  "list_for_each fuel s head = list_for_each_from fuel s head (next (s head))"

text \<open>
  \<^verbatim>\<open>list_for_each_safe(pos, n, head)\<close> around a body that may change the memory:
  the test is \<^verbatim>\<open>pos != head\<close>, the body runs on \<open>pos\<close>, and the step
  \<^verbatim>\<open>pos = n, n = pos->next\<close> reads the memory the body left. The result is the
  list of cursor values the body was run on, and the final memory.
\<close>

fun list_for_each_safe_from ::
  "nat \<Rightarrow> (addr \<Rightarrow> heap \<Rightarrow> heap) \<Rightarrow> addr \<Rightarrow> addr \<Rightarrow> addr \<Rightarrow> heap \<Rightarrow> (addr list \<times> heap) option"
where
  "list_for_each_safe_from 0 body head pos n s = None"
| "list_for_each_safe_from (Suc k) body head pos n s =
     (if pos \<noteq> head
      then (let s = body pos s;
                pos' = n;
                n' = next (s pos')
            in map_option (\<lambda>(vs, t). (pos # vs, t))
                 (list_for_each_safe_from k body head pos' n' s))
      else Some ([], s))"

definition list_for_each_safe ::
  "nat \<Rightarrow> (addr \<Rightarrow> heap \<Rightarrow> heap) \<Rightarrow> addr \<Rightarrow> heap \<Rightarrow> (addr list \<times> heap) option"
where
  "list_for_each_safe fuel body head s =
     (let pos = next (s head);
          n = next (s pos)
      in list_for_each_safe_from fuel body head pos n s)"

text \<open>
  The entry variants walk over the structures that embed the list heads.
  \<open>member\<close> is the offset of the embedded \<^verbatim>\<open>struct list_head\<close> in its owner:
  \<^verbatim>\<open>&pos->member\<close> is \<open>pos + member\<close>, and \<^verbatim>\<open>container_of\<close> subtracts the offset
  again (address arithmetic wraps, as on the machine).
\<close>

definition container_of :: "addr \<Rightarrow> addr \<Rightarrow> addr" where
  "container_of ptr member = ptr - member"

definition list_entry :: "addr \<Rightarrow> addr \<Rightarrow> addr" where
  "list_entry ptr member = container_of ptr member"

definition list_first_entry :: "heap \<Rightarrow> addr \<Rightarrow> addr \<Rightarrow> addr" where
  "list_first_entry s ptr member = list_entry (next (s ptr)) member"

definition list_next_entry :: "heap \<Rightarrow> addr \<Rightarrow> addr \<Rightarrow> addr" where
  "list_next_entry s pos member = list_entry (next (s (pos + member))) member"

definition list_entry_is_head :: "addr \<Rightarrow> addr \<Rightarrow> addr \<Rightarrow> bool" where
  "list_entry_is_head pos head member = (pos + member = head)"

fun list_for_each_entry_safe_from ::
  "nat \<Rightarrow> (addr \<Rightarrow> heap \<Rightarrow> heap) \<Rightarrow> addr \<Rightarrow> addr \<Rightarrow> addr \<Rightarrow> addr \<Rightarrow> heap
   \<Rightarrow> (addr list \<times> heap) option"
where
  "list_for_each_entry_safe_from 0 body head member pos n s = None"
| "list_for_each_entry_safe_from (Suc k) body head member pos n s =
     (if \<not> list_entry_is_head pos head member
      then (let s = body pos s;
                pos' = n;
                n' = list_next_entry s n member
            in map_option (\<lambda>(vs, t). (pos # vs, t))
                 (list_for_each_entry_safe_from k body head member pos' n' s))
      else Some ([], s))"

definition list_for_each_entry_safe ::
  "nat \<Rightarrow> (addr \<Rightarrow> heap \<Rightarrow> heap) \<Rightarrow> addr \<Rightarrow> addr \<Rightarrow> heap \<Rightarrow> (addr list \<times> heap) option"
where
  "list_for_each_entry_safe fuel body head member s =
     (let pos = list_first_entry s head member;
          n = list_next_entry s pos member
      in list_for_each_entry_safe_from fuel body head member pos n s)"

subsection \<open>Well-formed lists\<close>

text \<open>
  \<open>seg s p xs q\<close>: following \<open>next\<close> from \<open>p\<close> passes through \<open>xs\<close> in order and
  arrives at \<open>q\<close>, and each \<open>prev\<close> on the way points back. \<open>ring s cs\<close>: the nodes
  \<open>cs\<close> are distinct and form one circular chain, \<open>last cs\<close> linked back to
  \<open>hd cs\<close>. \<open>dlist s h xs\<close>: the list with head \<open>h\<close> is well formed and holds the
  entries \<open>xs\<close> in iteration order, which is the ring \<open>h # xs\<close>; the empty list is
  the head linked to itself.
\<close>

fun seg :: "heap \<Rightarrow> addr \<Rightarrow> addr list \<Rightarrow> addr \<Rightarrow> bool" where
  "seg s p [] q = (next (s p) = q \<and> prev (s q) = p)"
| "seg s p (x # xs) q = (next (s p) = x \<and> prev (s x) = p \<and> seg s x xs q)"

fun ring :: "heap \<Rightarrow> addr list \<Rightarrow> bool" where
  "ring s [] = False"
| "ring s (c # cs) = (distinct (c # cs) \<and> seg s c cs c)"

definition dlist :: "heap \<Rightarrow> addr \<Rightarrow> addr list \<Rightarrow> bool" where
  "dlist s h xs = ring s (h # xs)"

text \<open>The reciprocal linkage at one node.\<close>

definition linked :: "heap \<Rightarrow> addr \<Rightarrow> bool" where
  "linked s n = (prev (s (next (s n))) = n \<and> next (s (prev (s n))) = n)"


text \<open>
  The invariant of a list: it is well formed, and every node of it, the head
  included, is linked with both neighbours, which are nodes of the list again (so
  the nodes reachable from the head are the head and the entries).
\<close>

definition linked_list :: "heap \<Rightarrow> addr \<Rightarrow> addr list \<Rightarrow> bool" where
  "linked_list s h xs =
     (dlist s h xs \<and>
      (\<forall>n \<in> set (h # xs). linked s n \<and> next (s n) \<in> set (h # xs) \<and> prev (s n) \<in> set (h # xs)))"

subsection \<open>The operations as one family\<close>

text \<open>
  The mutating operations with their arguments, and the function that runs one.
  \<open>linked_args\<close> are the arguments the operation expects to be nodes of lists (it
  reads their pointers first); \<open>fresh_args\<close> are the arguments it only initialises:
  a node to insert, the replacement of \<^verbatim>\<open>list_replace\<close>, the list a cut fills.
\<close>

datatype list_op =
    Init addr
  | Add addr addr
  | Add_tail addr addr
  | Del addr
  | Del_init addr
  | Replace addr addr
  | Move addr addr
  | Move_tail addr addr
  | Bulk_move_tail addr addr addr
  | Splice addr addr
  | Splice_tail addr addr
  | Splice_init addr addr
  | Splice_tail_init addr addr
  | Cut_position addr addr addr
  | Cut_before addr addr addr
  | Rotate_left addr
  | Swap addr addr

fun run_op :: "list_op \<Rightarrow> heap \<Rightarrow> heap" where
  "run_op (Init l) = INIT_LIST_HEAD l"
| "run_op (Add n p) = list_add n p"
| "run_op (Add_tail n p) = list_add_tail n p"
| "run_op (Del e) = list_del e"
| "run_op (Del_init e) = list_del_init e"
| "run_op (Replace old new) = list_replace old new"
| "run_op (Move e h) = list_move e h"
| "run_op (Move_tail e h) = list_move_tail e h"
| "run_op (Bulk_move_tail h f l) = list_bulk_move_tail h f l"
| "run_op (Splice l h) = list_splice l h"
| "run_op (Splice_tail l h) = list_splice_tail l h"
| "run_op (Splice_init l h) = list_splice_init l h"
| "run_op (Splice_tail_init l h) = list_splice_tail_init l h"
| "run_op (Cut_position l h e) = list_cut_position l h e"
| "run_op (Cut_before l h e) = list_cut_before l h e"
| "run_op (Rotate_left h) = list_rotate_left h"
| "run_op (Swap a b) = list_swap a b"

fun linked_args :: "list_op \<Rightarrow> addr set" where
  "linked_args (Init l) = {}"
| "linked_args (Add n p) = {p}"
| "linked_args (Add_tail n p) = {p}"
| "linked_args (Del e) = {e}"
| "linked_args (Del_init e) = {e}"
| "linked_args (Replace old new) = {old}"
| "linked_args (Move e h) = {e, h}"
| "linked_args (Move_tail e h) = {e, h}"
| "linked_args (Bulk_move_tail h f l) = {h, f, l}"
| "linked_args (Splice l h) = {l, h}"
| "linked_args (Splice_tail l h) = {l, h}"
| "linked_args (Splice_init l h) = {l, h}"
| "linked_args (Splice_tail_init l h) = {l, h}"
| "linked_args (Cut_position l h e) = {h, e}"
| "linked_args (Cut_before l h e) = {h, e}"
| "linked_args (Rotate_left h) = {h}"
| "linked_args (Swap a b) = {a, b}"

fun fresh_args :: "list_op \<Rightarrow> addr set" where
  "fresh_args (Init l) = {l}"
| "fresh_args (Add n p) = {n}"
| "fresh_args (Add_tail n p) = {n}"
| "fresh_args (Replace old new) = {new}"
| "fresh_args (Cut_position l h e) = {l}"
| "fresh_args (Cut_before l h e) = {l}"
| "fresh_args _ = {}"

text \<open>A set of nodes that \<open>next\<close> and \<open>prev\<close> do not lead out of.\<close>

definition closed_under_links :: "heap \<Rightarrow> addr set \<Rightarrow> bool" where
  "closed_under_links s N = (\<forall>a \<in> N. next (s a) \<in> N \<and> prev (s a) \<in> N)"

text \<open>The node found at a position once \<open>a\<close> and \<open>b\<close> have changed places.\<close>

definition exchange :: "addr \<Rightarrow> addr \<Rightarrow> addr \<Rightarrow> addr" where
  "exchange a b x = (if x = a then b else if x = b then a else x)"

subsection \<open>A concrete memory\<close>

text \<open>
  Two lists: head 1 with the entries 2, 3, 4 and head 5 with the entries 6, 7.
  Every other structure, 8 and 9 among them, holds null pointers.
\<close>

definition ex_heap :: heap where
  "ex_heap = (\<lambda>_. \<lparr>next = 0, prev = 0\<rparr>)
     (1 := \<lparr>next = 2, prev = 4\<rparr>, 2 := \<lparr>next = 3, prev = 1\<rparr>,
      3 := \<lparr>next = 4, prev = 2\<rparr>, 4 := \<lparr>next = 1, prev = 3\<rparr>,
      5 := \<lparr>next = 6, prev = 7\<rparr>, 6 := \<lparr>next = 7, prev = 5\<rparr>,
      7 := \<lparr>next = 5, prev = 6\<rparr>)"


section \<open>Hash list (linux/hlist.h)\<close>

text \<open>
  A \<^verbatim>\<open>struct hlist_node **\<close> is the address of a pointer field. The fields the
  hash-list code takes the address of are \<^verbatim>\<open>&h->first\<close> of a head and
  \<^verbatim>\<open>&n->next\<close> of a node; any other value of that type, \<^verbatim>\<open>NULL\<close> and the poison
  \<^verbatim>\<open>LIST_POISON2\<close> among them, is a raw address. The memory is a record of two
  functions, the heads and the nodes by address. A store through a raw address,
  which faults on the machine, leaves the memory as it is; the theorems assume
  well-formed lists, where no such store happens. C variables called
  \<^verbatim>\<open>first\<close>, \<^verbatim>\<open>next\<close> and \<^verbatim>\<open>pprev\<close> carry a prime, and the field \<^verbatim>\<open>next\<close> of a
  node is \<open>hnext\<close>.
\<close>

datatype slot = Head_first addr | Node_next addr | Raw addr

record hlist_head =
  first :: addr

record hlist_node =
  hnext :: addr
  pprev :: slot

record hmem =
  heads :: "addr \<Rightarrow> hlist_head"
  nodes :: "addr \<Rightarrow> hlist_node"

definition set_first :: "addr \<Rightarrow> addr \<Rightarrow> hmem \<Rightarrow> hmem" where
  "set_first h v s = s\<lparr>heads := (heads s)(h := (heads s h)\<lparr>first := v\<rparr>)\<rparr>"

definition set_hnext :: "addr \<Rightarrow> addr \<Rightarrow> hmem \<Rightarrow> hmem" where
  "set_hnext n v s = s\<lparr>nodes := (nodes s)(n := (nodes s n)\<lparr>hnext := v\<rparr>)\<rparr>"

definition set_pprev :: "addr \<Rightarrow> slot \<Rightarrow> hmem \<Rightarrow> hmem" where
  "set_pprev n v s = s\<lparr>nodes := (nodes s)(n := (nodes s n)\<lparr>pprev := v\<rparr>)\<rparr>"

text \<open>\<^verbatim>\<open>*sl = v\<close>, and the value of \<^verbatim>\<open>*sl\<close> when \<open>sl\<close> addresses a field.\<close>

fun store :: "slot \<Rightarrow> addr \<Rightarrow> hmem \<Rightarrow> hmem" where
  "store (Head_first h) v s = set_first h v s"
| "store (Node_next n) v s = set_hnext n v s"
| "store (Raw a) v s = s"

fun load :: "hmem \<Rightarrow> slot \<Rightarrow> addr option" where
  "load s (Head_first h) = Some (first (heads s h))"
| "load s (Node_next n) = Some (hnext (nodes s n))"
| "load s (Raw a) = None"

definition INIT_HLIST_HEAD :: "addr \<Rightarrow> hmem \<Rightarrow> hmem" where
  "INIT_HLIST_HEAD ptr s = set_first ptr NULL s"

definition INIT_HLIST_NODE :: "addr \<Rightarrow> hmem \<Rightarrow> hmem" where
  "INIT_HLIST_NODE h s =
     (let s = set_hnext h NULL s
      in set_pprev h (Raw NULL) s)"

definition hlist_unhashed :: "hmem \<Rightarrow> addr \<Rightarrow> bool" where
  "hlist_unhashed s h = (pprev (nodes s h) = Raw NULL)"

definition hlist_unhashed_lockless :: "hmem \<Rightarrow> addr \<Rightarrow> bool" where
  "hlist_unhashed_lockless s h = (pprev (nodes s h) = Raw NULL)"

definition hlist_empty :: "hmem \<Rightarrow> addr \<Rightarrow> bool" where
  "hlist_empty s h = (first (heads s h) = NULL)"

definition raw_hlist_del :: "addr \<Rightarrow> hmem \<Rightarrow> hmem" where
  "raw_hlist_del n s =
     (let next' = hnext (nodes s n);
          pprev' = pprev (nodes s n);
          s = store pprev' next' s
      in if next' \<noteq> NULL then set_pprev next' pprev' s else s)"

definition hlist_del :: "addr \<Rightarrow> hmem \<Rightarrow> hmem" where
  "hlist_del n s =
     (let s = raw_hlist_del n s;
          s = set_hnext n LIST_POISON1 s
      in set_pprev n (Raw LIST_POISON2) s)"

definition hlist_del_init :: "addr \<Rightarrow> hmem \<Rightarrow> hmem" where
  "hlist_del_init n s =
     (if \<not> hlist_unhashed s n
      then (let s = raw_hlist_del n s
            in INIT_HLIST_NODE n s)
      else s)"

definition hlist_add_head :: "addr \<Rightarrow> addr \<Rightarrow> hmem \<Rightarrow> hmem" where
  "hlist_add_head n h s =
     (let first' = first (heads s h);
          s = set_hnext n first' s;
          s = (if first' \<noteq> NULL then set_pprev first' (Node_next n) s else s);
          s = set_first h n s
      in set_pprev n (Head_first h) s)"

definition hlist_add_before :: "addr \<Rightarrow> addr \<Rightarrow> hmem \<Rightarrow> hmem" where
  "hlist_add_before n next' s =
     (let s = set_pprev n (pprev (nodes s next')) s;
          s = set_hnext n next' s;
          s = set_pprev next' (Node_next n) s
      in store (pprev (nodes s n)) n s)"

definition hlist_add_behind :: "addr \<Rightarrow> addr \<Rightarrow> hmem \<Rightarrow> hmem" where
  "hlist_add_behind n prev' s =
     (let s = set_hnext n (hnext (nodes s prev')) s;
          s = set_hnext prev' n s;
          s = set_pprev n (Node_next prev') s
      in if hnext (nodes s n) \<noteq> NULL
         then set_pprev (hnext (nodes s n)) (Node_next n) s
         else s)"

definition hlist_add_fake :: "addr \<Rightarrow> hmem \<Rightarrow> hmem" where
  "hlist_add_fake n s = set_pprev n (Node_next n) s"

definition hlist_fake :: "hmem \<Rightarrow> addr \<Rightarrow> bool" where
  "hlist_fake s h = (pprev (nodes s h) = Node_next h)"

definition hlist_is_singular_node :: "hmem \<Rightarrow> addr \<Rightarrow> addr \<Rightarrow> bool" where
  "hlist_is_singular_node s n h =
     (hnext (nodes s n) = NULL \<and> pprev (nodes s n) = Head_first h)"

definition hlist_move_list :: "addr \<Rightarrow> addr \<Rightarrow> hmem \<Rightarrow> hmem" where
  "hlist_move_list old new s =
     (let s = set_first new (first (heads s old)) s;
          s = (if first (heads s new) \<noteq> NULL
               then set_pprev (first (heads s new)) (Head_first new) s
               else s)
      in set_first old NULL s)"

subsection \<open>Well-formed hash lists\<close>

text \<open>
  \<open>hseg s sl xs t\<close>: the slot \<open>sl\<close> holds the first node of \<open>xs\<close>, each node's
  \<open>pprev\<close> is the slot that holds it, each node's \<open>next\<close> field holds the node
  after it, and the last slot holds \<open>t\<close>. \<open>hlist s h xs\<close>: the hash list rooted at
  the head \<open>h\<close> holds the distinct, non-null nodes \<open>xs\<close> in order and ends with
  \<^verbatim>\<open>NULL\<close>. \<open>hlinked s n\<close> is the invariant at one node: \<^verbatim>\<open>*(n.pprev) == n\<close>, and
  \<^verbatim>\<open>n.next.pprev == &n.next\<close> when \<^verbatim>\<open>n.next\<close> is not null.
\<close>

fun hseg :: "hmem \<Rightarrow> slot \<Rightarrow> addr list \<Rightarrow> addr \<Rightarrow> bool" where
  "hseg s sl [] t = (load s sl = Some t)"
| "hseg s sl (x # xs) t =
     (load s sl = Some x \<and> pprev (nodes s x) = sl \<and> hseg s (Node_next x) xs t)"

definition hlist :: "hmem \<Rightarrow> addr \<Rightarrow> addr list \<Rightarrow> bool" where
  "hlist s h xs = (distinct xs \<and> NULL \<notin> set xs \<and> hseg s (Head_first h) xs NULL)"

definition hlinked :: "hmem \<Rightarrow> addr \<Rightarrow> bool" where
  "hlinked s n =
     (load s (pprev (nodes s n)) = Some n
      \<and> (hnext (nodes s n) \<noteq> NULL
           \<longrightarrow> pprev (nodes s (hnext (nodes s n))) = Node_next n))"

definition hlist_inv :: "hmem \<Rightarrow> addr \<Rightarrow> addr list \<Rightarrow> bool" where
  "hlist_inv s h xs = (hlist s h xs \<and> (\<forall>n \<in> set xs. hlinked s n))"

text \<open>
  A concrete memory: the head 1 roots the chain 2, 3, 4 and the head 5 the chain
  6, 7; every other head is empty and every other node, 8 among them, holds null
  pointers.
\<close>

definition ex_hmem :: hmem where
  "ex_hmem =
     \<lparr>heads = (\<lambda>_. \<lparr>first = 0\<rparr>)(1 := \<lparr>first = 2\<rparr>, 5 := \<lparr>first = 6\<rparr>),
      nodes = (\<lambda>_. \<lparr>hnext = 0, pprev = Raw 0\<rparr>)
        (2 := \<lparr>hnext = 3, pprev = Head_first 1\<rparr>,
         3 := \<lparr>hnext = 4, pprev = Node_next 2\<rparr>,
         4 := \<lparr>hnext = 0, pprev = Node_next 3\<rparr>,
         6 := \<lparr>hnext = 7, pprev = Head_first 5\<rparr>,
         7 := \<lparr>hnext = 0, pprev = Node_next 6\<rparr>)\<rparr>"


section \<open>Theorems about the hashes\<close>

lemma unat_drop_bit_div: "unat (drop_bit n w) = unat w div 2 ^ n"
  unfolding unat_drop_bit_eq by (rule drop_bit_eq_div)

lemma shift_amount:
  fixes bits :: "32 word"
  assumes "1 \<le> unat bits" "unat bits \<le> 32"
  shows "unat (32 - bits) = 32 - unat bits" "unat (64 - bits) = 64 - unat bits"
  using assms by (simp_all add: unat_sub word_le_nat_alt)

lemma div_pow_bound:
  fixes x :: nat
  assumes "x < 2 ^ w" "b \<le> w"
  shows "x div 2 ^ (w - b) < 2 ^ b"
proof -
  have "(2::nat) ^ w = 2 ^ (w - b) * 2 ^ b"
    using assms(2) by (simp flip: power_add)
  with assms(1) show ?thesis
    by (simp add: less_mult_imp_div_less mult.commute)
qed

lemma hash_32_value:
  assumes "1 \<le> unat bits" "unat bits \<le> 32"
  shows "unat (hash_32 val bits) =
         ((unat val * 0x61C88647) mod 2 ^ 32) div 2 ^ (32 - unat bits)"
  using shift_amount(1)[OF assms]
  by (simp add: hash_32_def hash_32_mul_def GOLDEN_RATIO_32_def unat_drop_bit_div
      unat_word_ariths)

lemma hash_32_bound:
  assumes "1 \<le> unat bits" "unat bits \<le> 32"
  shows "unat (hash_32 val bits) < 2 ^ unat bits"
proof -
  have "unat (hash_32_mul val) < 2 ^ 32"
    using unsigned_less[of "hash_32_mul val"] by simp
  then show ?thesis
    using div_pow_bound[of "unat (hash_32_mul val)" 32 "unat bits"] assms
      shift_amount(1)[OF assms]
    by (simp add: hash_32_def unat_drop_bit_div)
qed

lemma hash_64_bound:
  assumes "1 \<le> unat bits" "unat bits \<le> 32"
  shows "unat (hash_64 bpl val bits) < 2 ^ unat bits"
proof (cases "bpl = 64")
  case True
  let ?p = "val * GOLDEN_RATIO_64"
  have "unat ?p < 2 ^ 64"
    using unsigned_less[of ?p] by simp
  then have a: "unat ?p div 2 ^ (64 - unat bits) < 2 ^ unat bits"
    using div_pow_bound[of "unat ?p" 64 "unat bits"] assms by simp
  have "unat (ucast (drop_bit (unat (64 - bits)) ?p) :: 32 word)
        \<le> unat (drop_bit (unat (64 - bits)) ?p)"
    by (simp add: unsigned_ucast_eq)
  with a show ?thesis
    using True shift_amount(2)[OF assms] by (simp add: hash_64_def unat_drop_bit_div)
next
  case False
  then show ?thesis using hash_32_bound[OF assms] by (simp add: hash_64_def)
qed

text \<open>
  Claim C10. For every 32-bit \<open>val\<close> and every \<open>bits\<close> from 1 to 32, \<open>hash_32 val bits\<close>
  is the product \<open>val * 0x61C88647\<close> reduced modulo \<open>2 ^ 32\<close> and shifted right by
  \<open>32 - bits\<close>, so it is below \<open>2 ^ bits\<close>; and \<open>hash_64 val bits\<close> is below
  \<open>2 ^ bits\<close> for every 64-bit \<open>val\<close>, whichever way \<^verbatim>\<open>BITS_PER_LONG\<close> selects.
\<close>

theorem hash_range:
  assumes "1 \<le> unat bits" "unat bits \<le> 32"
  shows "unat (hash_32 val bits) =
           ((unat val * 0x61C88647) mod 2 ^ 32) div 2 ^ (32 - unat bits)
         \<and> unat (hash_32 val bits) < 2 ^ unat bits
         \<and> unat (hash_64 bpl val64 bits) < 2 ^ unat bits"
  using hash_32_value[OF assms] hash_32_bound[OF assms] hash_64_bound[OF assms]
  by blast

theorem hash_range_witness:
  "1 \<le> unat (8 :: 32 word) \<and> unat (8 :: 32 word) \<le> 32
   \<and> unat (hash_32 3 8) = 37 \<and> unat (hash_32 3 8) < 2 ^ 8
   \<and> unat (hash_64 64 12345 8) < 2 ^ 8"
  using hash_range[of 8 3 64 12345] by simp

section \<open>Segments and rings\<close>

lemma next_set_next [simp]: "next (set_next p v s a) = (if a = p then v else next (s a))"
  by (simp add: set_next_def)

lemma prev_set_next [simp]: "prev (set_next p v s a) = prev (s a)"
  by (simp add: set_next_def)

lemma next_set_prev [simp]: "next (set_prev p v s a) = next (s a)"
  by (simp add: set_prev_def)

lemma prev_set_prev [simp]: "prev (set_prev p v s a) = (if a = p then v else prev (s a))"
  by (simp add: set_prev_def)

lemma seg_append [simp]:
  "seg s p (as @ e # bs) q = (seg s p as e \<and> seg s e bs q)"
  by (induction as arbitrary: p) auto

lemma seg_snoc [simp]:
  "seg s p (xs @ [x]) q = (seg s p xs x \<and> next (s x) = q \<and> prev (s q) = x)"
  using seg_append[of s p xs x "[]" q] by simp

lemma seg_cong:
  "\<forall>a \<in> set (p # xs). next (s' a) = next (s a) \<Longrightarrow>
   \<forall>a \<in> set (xs @ [q]). prev (s' a) = prev (s a) \<Longrightarrow>
   seg s' p xs q = seg s p xs q"
  by (induction xs arbitrary: p) auto

lemma seg_set_next [simp]:
  "a \<noteq> p \<Longrightarrow> a \<notin> set xs \<Longrightarrow> seg (set_next a v s) p xs q = seg s p xs q"
  by (rule seg_cong) auto

lemma seg_set_prev [simp]:
  "a \<noteq> q \<Longrightarrow> a \<notin> set xs \<Longrightarrow> seg (set_prev a v s) p xs q = seg s p xs q"
  by (rule seg_cong) auto

lemma ring_rotate1: "ring s (c # cs) = ring s (cs @ [c])"
  by (cases cs) auto

lemma ring_rotate: "ring s (as @ bs) = ring s (bs @ as)"
proof (induction as arbitrary: bs)
  case Nil
  then show ?case by simp
next
  case (Cons a as)
  have "ring s ((a # as) @ bs) = ring s ((as @ bs) @ [a])"
    using ring_rotate1[of s a "as @ bs"] by simp
  also have "\<dots> = ring s (as @ (bs @ [a]))" by simp
  also have "\<dots> = ring s ((bs @ [a]) @ as)" by (rule Cons.IH)
  finally show ?case by simp
qed

lemma ring_cong:
  "\<forall>a \<in> set cs. s' a = s a \<Longrightarrow> ring s' cs = ring s cs"
  by (cases cs) (auto intro!: arg_cong2[where f="(\<and>)"] seg_cong)

lemmas list_defs = INIT_LIST_HEAD_def raw_list_add_def list_add_def list_add_tail_def
  raw_list_del_def raw_list_del_entry_def list_del_def list_replace_def 
  list_del_init_def list_move_def list_move_tail_def Let_def

lemma INIT_LIST_HEAD_ring: "ring (INIT_LIST_HEAD l s) [l]"
  by (simp add: list_defs)

lemma list_add_head: "ring s (p # cs) \<Longrightarrow> n \<notin> set (p # cs) \<Longrightarrow> ring (list_add n p s) (p # n # cs)"
  by (cases cs) (auto simp: list_defs)

lemma list_add_ring:
  assumes "ring s (as @ p # bs)" "n \<notin> set (as @ p # bs)"
  shows "ring (list_add n p s) (as @ p # n # bs)"
proof -
  have "ring s (p # bs @ as)" using assms(1) ring_rotate[of s as "p # bs"] by simp
  then have "ring (list_add n p s) (p # n # bs @ as)"
    using assms(2) by (intro list_add_head) auto
  then show ?thesis using ring_rotate[of "list_add n p s" as "p # n # bs"] by simp
qed

lemma list_add_tail_head:
  "ring s (p # cs) \<Longrightarrow> n \<notin> set (p # cs) \<Longrightarrow> ring (list_add_tail n p s) (p # cs @ [n])"
  by (cases cs rule: rev_cases) (auto simp: list_defs)

lemma list_add_tail_ring:
  assumes "ring s (as @ p # bs)" "n \<notin> set (as @ p # bs)"
  shows "ring (list_add_tail n p s) (as @ n # p # bs)"
proof -
  have "ring s (p # bs @ as)" using assms(1) ring_rotate[of s as "p # bs"] by simp
  then have "ring (list_add_tail n p s) (p # (bs @ as) @ [n])"
    using assms(2) by (intro list_add_tail_head) auto
  then show ?thesis using ring_rotate[of "list_add_tail n p s" "as @ [n]" "p # bs"] by simp
qed

lemma seg_next_mem:
  "seg s p xs q \<Longrightarrow> e \<in> set (p # xs) \<Longrightarrow> next (s e) \<in> set (xs @ [q])"
  by (induction xs arbitrary: p) auto

lemma seg_prev_mem:
  "seg s p xs q \<Longrightarrow> e \<in> set (xs @ [q]) \<Longrightarrow> prev (s e) \<in> set (p # xs)"
  by (induction xs arbitrary: p) auto

lemma seg_next_linked:
  "seg s p xs q \<Longrightarrow> e \<in> set (p # xs) \<Longrightarrow> prev (s (next (s e))) = e"
  by (induction xs arbitrary: p) auto

lemma seg_prev_linked:
  "seg s p xs q \<Longrightarrow> e \<in> set (xs @ [q]) \<Longrightarrow> next (s (prev (s e))) = e"
  by (induction xs arbitrary: p) auto

lemma ring_closed:
  "ring s cs \<Longrightarrow> e \<in> set cs \<Longrightarrow> next (s e) \<in> set cs \<and> prev (s e) \<in> set cs"
  using seg_next_mem[of s "hd cs" "tl cs" "hd cs" e] seg_prev_mem[of s "hd cs" "tl cs" "hd cs" e]
  by (cases cs) auto

lemma ring_linked:
  "ring s cs \<Longrightarrow> e \<in> set cs \<Longrightarrow> linked s e"
  using seg_next_linked[of s "hd cs" "tl cs" "hd cs" e] seg_prev_linked[of s "hd cs" "tl cs" "hd cs" e]
  by (cases cs) (auto simp: linked_def)

lemma raw_list_del_entry_head:
  "ring s (e # c # cs) \<Longrightarrow> ring (raw_list_del_entry e s) (c # cs)"
  by (cases cs rule: rev_cases) (auto simp: list_defs)

lemma raw_list_del_entry_ring:
  assumes "ring s (as @ e # bs)" "as @ bs \<noteq> []"
  shows "ring (raw_list_del_entry e s) (as @ bs)"
proof -
  have r: "ring s (e # bs @ as)" using assms(1) ring_rotate[of s as "e # bs"] by simp
  obtain c cs where c: "bs @ as = c # cs" using assms(2) by (cases "bs @ as") auto
  have "ring (raw_list_del_entry e s) (bs @ as)"
    using r raw_list_del_entry_head[of s e c cs] c by simp
  then show ?thesis using ring_rotate[of _ as bs] by simp
qed

lemma raw_list_del_entry_frame:
  "ring s cs \<Longrightarrow> e \<in> set cs \<Longrightarrow> a \<notin> set cs \<Longrightarrow> raw_list_del_entry e s a = s a"
  using ring_closed[of s cs e]
  by (auto simp: raw_list_del_entry_def raw_list_del_def Let_def set_next_def set_prev_def)

lemma raw_list_add_frame:
  "a \<noteq> n \<Longrightarrow> a \<noteq> p \<Longrightarrow> a \<noteq> q \<Longrightarrow> raw_list_add n p q s a = s a"
  by (simp add: raw_list_add_def Let_def set_next_def set_prev_def)

lemma list_add_frame:
  "ring s cs \<Longrightarrow> p \<in> set cs \<Longrightarrow> a \<notin> set cs \<Longrightarrow> a \<noteq> n \<Longrightarrow> list_add n p s a = s a"
  using ring_closed[of s cs p] by (auto simp: list_add_def intro!: raw_list_add_frame)

lemma list_add_tail_frame:
  "ring s cs \<Longrightarrow> p \<in> set cs \<Longrightarrow> a \<notin> set cs \<Longrightarrow> a \<noteq> n \<Longrightarrow> list_add_tail n p s a = s a"
  using ring_closed[of s cs p] by (auto simp: list_add_tail_def intro!: raw_list_add_frame)

lemma ring_set_next_out [simp]: "a \<notin> set cs \<Longrightarrow> ring (set_next a v s) cs = ring s cs"
  by (rule ring_cong) (auto simp: set_next_def)

lemma ring_set_prev_out [simp]: "a \<notin> set cs \<Longrightarrow> ring (set_prev a v s) cs = ring s cs"
  by (rule ring_cong) (auto simp: set_prev_def)

lemma ring_distinct: "ring s cs \<Longrightarrow> distinct cs"
  by (cases cs) auto

lemma list_del_ring:
  assumes "ring s (as @ e # bs)" "as @ bs \<noteq> []"
  shows "ring (list_del e s) (as @ bs)"
proof -
  have "e \<notin> set (as @ bs)" using ring_distinct[OF assms(1)] by auto
  then show ?thesis
    using raw_list_del_entry_ring[OF assms] by (simp add: list_del_def Let_def)
qed

lemma list_del_frame:
  "ring s cs \<Longrightarrow> e \<in> set cs \<Longrightarrow> a \<notin> set cs \<Longrightarrow> list_del e s a = s a"
  using raw_list_del_entry_frame[of s cs e a]
  by (auto simp: list_del_def Let_def set_next_def set_prev_def)

lemma list_del_init_ring:
  assumes "ring s (as @ e # bs)" "as @ bs \<noteq> []"
  shows "ring (list_del_init e s) (as @ bs) \<and> ring (list_del_init e s) [e]"
proof -
  have "e \<notin> set (as @ bs)" using ring_distinct[OF assms(1)] by auto
  then show ?thesis
    using raw_list_del_entry_ring[OF assms] by (simp add: list_del_init_def INIT_LIST_HEAD_def Let_def)
qed

lemma ends_cases [case_names Nil One Ends]:
  obtains "xs = []" | x where "xs = [x]" | x mid y where "xs = x # mid @ [y]"
proof (cases xs)
  case Nil
  then show ?thesis using that by simp
next
  case (Cons x ys)
  then show ?thesis using that by (cases ys rule: rev_cases) auto
qed

lemma list_replace_head:
  "ring s (old # cs) \<Longrightarrow> new \<notin> set (old # cs) \<Longrightarrow> ring (list_replace old new s) (new # cs)"
  by (cases cs rule: ends_cases) (auto simp: list_defs)

lemma list_replace_ring:
  assumes "ring s (as @ old # bs)" "new \<notin> set (as @ old # bs)"
  shows "ring (list_replace old new s) (as @ new # bs)"
proof -
  have "ring s (old # bs @ as)" using assms(1) ring_rotate[of s as "old # bs"] by simp
  then have "ring (list_replace old new s) (new # bs @ as)"
    using assms(2) by (intro list_replace_head) auto
  then show ?thesis using ring_rotate[of _ as "new # bs"] by simp
qed

lemma list_replace_frame:
  "ring s cs \<Longrightarrow> old \<in> set cs \<Longrightarrow> a \<notin> set cs \<Longrightarrow> a \<noteq> new \<Longrightarrow> list_replace old new s a = s a"
  using ring_closed[of s cs old]
  by (auto simp: list_replace_def Let_def set_next_def set_prev_def)

section \<open>List operations on well-formed lists\<close>

lemma dlist_empty_iff: "dlist s h xs \<Longrightarrow> list_empty s h = (xs = [])"
  by (cases xs) (auto simp: dlist_def list_empty_def)

lemma list_move_same:
  assumes "dlist s h (as @ e # bs)"
  shows "dlist (list_move e h s) h (e # as @ bs)"
proof -
  have r: "ring s ((h # as) @ e # bs)" using assms by (simp add: dlist_def)
  have "ring (raw_list_del_entry e s) ((h # as) @ bs)"
    by (rule raw_list_del_entry_ring[OF r]) simp
  moreover have "e \<notin> set (h # as @ bs)" using ring_distinct[OF r] by auto
  ultimately show ?thesis
    using list_add_head[of "raw_list_del_entry e s" h "as @ bs" e]
    by (simp add: list_move_def dlist_def)
qed

lemma list_move_tail_same:
  assumes "dlist s h (as @ e # bs)"
  shows "dlist (list_move_tail e h s) h (as @ bs @ [e])"
proof -
  have r: "ring s ((h # as) @ e # bs)" using assms by (simp add: dlist_def)
  have "ring (raw_list_del_entry e s) ((h # as) @ bs)"
    by (rule raw_list_del_entry_ring[OF r]) simp
  moreover have "e \<notin> set (h # as @ bs)" using ring_distinct[OF r] by auto
  ultimately show ?thesis
    using list_add_tail_head[of "raw_list_del_entry e s" h "as @ bs" e]
    by (simp add: list_move_tail_def dlist_def)
qed

lemma list_move_other:
  assumes "dlist s h1 (as @ e # bs)" "dlist s h2 ys"
    and disj: "set (h1 # as @ e # bs) \<inter> set (h2 # ys) = {}"
  shows "dlist (list_move e h2 s) h1 (as @ bs) \<and> dlist (list_move e h2 s) h2 (e # ys)"
proof -
  let ?s1 = "raw_list_del_entry e s"
  have r: "ring s ((h1 # as) @ e # bs)" using assms(1) by (simp add: dlist_def)
  have r1: "ring ?s1 (h1 # as @ bs)"
    using raw_list_del_entry_ring[OF r] by simp
  have "\<forall>a \<in> set (h2 # ys). ?s1 a = s a"
    using disj by (intro ballI raw_list_del_entry_frame[OF r]) auto
  then have r2: "ring ?s1 (h2 # ys)"
    using assms(2) ring_cong[of "h2 # ys" ?s1 s] by (simp add: dlist_def)
  have e: "e \<notin> set (h2 # ys)" "e \<notin> set (h1 # as @ bs)"
    using disj ring_distinct[OF r] by auto
  have "\<forall>a \<in> set (h1 # as @ bs). list_add e h2 ?s1 a = ?s1 a"
    using disj e by (intro ballI list_add_frame[OF r2]) auto
  then have "ring (list_add e h2 ?s1) (h1 # as @ bs)"
    using r1 ring_cong[of "h1 # as @ bs" "list_add e h2 ?s1" ?s1] by simp
  then show ?thesis
    using list_add_head[OF r2 e(1)] by (simp add: list_move_def dlist_def)
qed

lemma list_move_tail_other:
  assumes "dlist s h1 (as @ e # bs)" "dlist s h2 ys"
    and disj: "set (h1 # as @ e # bs) \<inter> set (h2 # ys) = {}"
  shows "dlist (list_move_tail e h2 s) h1 (as @ bs) \<and> dlist (list_move_tail e h2 s) h2 (ys @ [e])"
proof -
  let ?s1 = "raw_list_del_entry e s"
  have r: "ring s ((h1 # as) @ e # bs)" using assms(1) by (simp add: dlist_def)
  have r1: "ring ?s1 (h1 # as @ bs)"
    using raw_list_del_entry_ring[OF r] by simp
  have "\<forall>a \<in> set (h2 # ys). ?s1 a = s a"
    using disj by (intro ballI raw_list_del_entry_frame[OF r]) auto
  then have r2: "ring ?s1 (h2 # ys)"
    using assms(2) ring_cong[of "h2 # ys" ?s1 s] by (simp add: dlist_def)
  have e: "e \<notin> set (h2 # ys)" "e \<notin> set (h1 # as @ bs)"
    using disj ring_distinct[OF r] by auto
  have "\<forall>a \<in> set (h1 # as @ bs). list_add_tail e h2 ?s1 a = ?s1 a"
    using disj e by (intro ballI list_add_tail_frame[OF r2]) auto
  then have "ring (list_add_tail e h2 ?s1) (h1 # as @ bs)"
    using r1 ring_cong[of "h1 # as @ bs" "list_add_tail e h2 ?s1" ?s1] by simp
  then show ?thesis
    using list_add_tail_head[OF r2 e(1)] by (simp add: list_move_tail_def dlist_def)
qed

lemma list_rotate_left_dlist:
  "dlist s h (x # xs) \<Longrightarrow> dlist (list_rotate_left h s) h (xs @ [x])"
  using list_move_tail_same[of s h "[]" x xs]
  by (auto simp: list_rotate_left_def list_empty_def dlist_def Let_def)

lemma list_rotate_left_empty:
  "dlist s h [] \<Longrightarrow> list_rotate_left h s = s"
  by (simp add: list_rotate_left_def list_empty_def dlist_def)

lemma list_splice_dlist:
  assumes "dlist s a as" "as \<noteq> []" "dlist s b bs" "set (a # as) \<inter> set (b # bs) = {}"
  shows "dlist (list_splice a b s) b (as @ bs)"
  using assms
  by (cases as rule: ends_cases; cases bs)
     (auto simp: list_splice_def raw_list_splice_def list_empty_def dlist_def Let_def)

lemma list_splice_tail_dlist:
  assumes "dlist s a as" "as \<noteq> []" "dlist s b bs" "set (a # as) \<inter> set (b # bs) = {}"
  shows "dlist (list_splice_tail a b s) b (bs @ as)"
  using assms
  by (cases as rule: ends_cases; cases bs rule: rev_cases)
     (auto simp: list_splice_tail_def raw_list_splice_def list_empty_def dlist_def Let_def)

lemma list_splice_frame:
  "dlist s a as \<Longrightarrow> as \<noteq> [] \<Longrightarrow> a \<noteq> b \<Longrightarrow> a \<noteq> next (s b) \<Longrightarrow> list_splice a b s a = s a"
  by (cases as rule: ends_cases)
     (auto simp: list_splice_def raw_list_splice_def list_empty_def dlist_def Let_def
        set_next_def set_prev_def)

lemma list_splice_tail_frame:
  "dlist s a as \<Longrightarrow> as \<noteq> [] \<Longrightarrow> a \<noteq> b \<Longrightarrow> a \<noteq> prev (s b) \<Longrightarrow> list_splice_tail a b s a = s a"
  by (cases as rule: ends_cases)
     (auto simp: list_splice_tail_def raw_list_splice_def list_empty_def dlist_def Let_def
        set_next_def set_prev_def)

lemma list_splice_init_eq:
  "list_splice_init a b s = (if list_empty s a then s else INIT_LIST_HEAD a (list_splice a b s))"
  by (simp add: list_splice_init_def list_splice_def Let_def)

lemma list_splice_tail_init_eq:
  "list_splice_tail_init a b s =
     (if list_empty s a then s else INIT_LIST_HEAD a (list_splice_tail a b s))"
  by (simp add: list_splice_tail_init_def list_splice_tail_def Let_def)

lemma dlist_INIT_other:
  "dlist s b xs \<Longrightarrow> a \<notin> set (b # xs) \<Longrightarrow> dlist (INIT_LIST_HEAD a s) b xs"
  by (simp add: dlist_def INIT_LIST_HEAD_def Let_def del: ring.simps)

lemma dlist_INIT: "dlist (INIT_LIST_HEAD a s) a []"
  by (simp add: dlist_def INIT_LIST_HEAD_def Let_def)

lemma list_splice_init_dlist:
  assumes "dlist s a as" "as \<noteq> []" "dlist s b bs" "set (a # as) \<inter> set (b # bs) = {}"
  shows "dlist (list_splice_init a b s) b (as @ bs) \<and> dlist (list_splice_init a b s) a []"
proof -
  have "a \<notin> set (b # as @ bs)" using assms(1,4) by (auto simp: dlist_def)
  then show ?thesis
    using list_splice_dlist[OF assms] dlist_empty_iff[OF assms(1)] assms(2)
    by (simp add: list_splice_init_eq dlist_INIT dlist_INIT_other)
qed

lemma list_splice_tail_init_dlist:
  assumes "dlist s a as" "as \<noteq> []" "dlist s b bs" "set (a # as) \<inter> set (b # bs) = {}"
  shows "dlist (list_splice_tail_init a b s) b (bs @ as)
         \<and> dlist (list_splice_tail_init a b s) a []"
proof -
  have "a \<notin> set (b # bs @ as)" using assms(1,4) by (auto simp: dlist_def)
  then show ?thesis
    using list_splice_tail_dlist[OF assms] dlist_empty_iff[OF assms(1)] assms(2)
    by (simp add: list_splice_tail_init_eq dlist_INIT dlist_INIT_other)
qed

lemma list_splice_empty:
  assumes "dlist s a []"
  shows "list_splice a b s = s" "list_splice_tail a b s = s"
        "list_splice_init a b s = s" "list_splice_tail_init a b s = s"
  using dlist_empty_iff[OF assms]
  by (simp_all add: list_splice_def list_splice_tail_def list_splice_init_def
      list_splice_tail_init_def)

lemma dlist_singular_iff: "dlist s h xs \<Longrightarrow> list_is_singular s h = (length xs = 1)"
  by (cases xs rule: ends_cases) (auto simp: dlist_def list_is_singular_def list_empty_def)

lemma raw_list_cut_position_dlist:
  assumes "dlist s h (pre @ e # post)" "dest \<notin> set (h # pre @ e # post)"
  shows "dlist (raw_list_cut_position dest h e s) dest (pre @ [e])
         \<and> dlist (raw_list_cut_position dest h e s) h post"
  using assms
  by (cases pre; cases post)
     (auto simp: raw_list_cut_position_def dlist_def Let_def)

lemma list_cut_position_dlist:
  assumes "dlist s h (pre @ e # post)" "dest \<notin> set (h # pre @ e # post)"
  shows "dlist (list_cut_position dest h e s) dest (pre @ [e])
         \<and> dlist (list_cut_position dest h e s) h post"
proof -
  have "e \<noteq> h" "next (s h) = hd (pre @ [e])"
    using assms(1) by (cases pre; auto simp: dlist_def)+
  moreover have "list_is_singular s h \<Longrightarrow> pre = []"
    using dlist_singular_iff[OF assms(1)] by simp
  ultimately have "list_cut_position dest h e s = raw_list_cut_position dest h e s"
    using dlist_empty_iff[OF assms(1)] by (auto simp: list_cut_position_def)
  then show ?thesis using raw_list_cut_position_dlist[OF assms] by simp
qed

lemma list_cut_position_head:
  assumes "dlist s h xs" "xs \<noteq> []" "dest \<notin> set (h # xs)"
  shows "list_cut_position dest h h s = INIT_LIST_HEAD dest s"
  using assms
  by (cases xs) (auto simp: list_cut_position_def list_empty_def dlist_def)

lemma list_cut_position_empty:
  "dlist s h [] \<Longrightarrow> list_cut_position dest h e s = s"
  by (simp add: list_cut_position_def list_empty_def dlist_def)

lemma list_cut_before_dlist:
  assumes "dlist s h (pre @ e # post)" "dest \<notin> set (h # pre @ e # post)"
  shows "dlist (list_cut_before dest h e s) dest pre
         \<and> dlist (list_cut_before dest h e s) h (e # post)"
  using assms
  by (cases pre rule: ends_cases)
     (auto simp: list_cut_before_def INIT_LIST_HEAD_def dlist_def Let_def)

lemma list_cut_before_head:
  assumes "dlist s h xs" "dest \<notin> set (h # xs)"
  shows "dlist (list_cut_before dest h h s) dest xs
         \<and> dlist (list_cut_before dest h h s) h []"
  using assms
  by (cases xs rule: ends_cases)
     (auto simp: list_cut_before_def INIT_LIST_HEAD_def dlist_def Let_def)

subsection \<open>Bulk move and swap\<close>

lemma list_bulk_move_tail_dlist:
  assumes "dlist s h (as @ run @ bs)" "run \<noteq> []"
  shows "dlist (list_bulk_move_tail h (hd run) (last run) s) h (as @ bs @ run)"
  using assms
  by (cases run rule: ends_cases; cases as rule: rev_cases; cases bs rule: ends_cases;
      clarsimp simp: list_bulk_move_tail_def dlist_def Let_def; blast)

lemma ring_prev_at: "ring s (cs @ x # y # ds) \<Longrightarrow> prev (s y) = x"
  by (cases cs) auto

lemma list_swap_eq:
  "list_swap a b s =
     list_add a (if prev (s b) = a then b else prev (s b)) (list_replace a b (list_del b s))"
  by (simp add: list_swap_def Let_def)

lemma list_swap_forward:
  assumes "dlist s h (as @ a # ms @ b # bs)"
  shows "dlist (list_swap a b s) h (as @ b # ms @ a # bs)"
proof -
  let ?s1 = "list_del b s" and ?s2 = "list_replace a b (list_del b s)"
  have r: "ring s ((h # as @ a # ms) @ b # bs)" using assms by (simp add: dlist_def)
  have d: "distinct (h # as @ a # ms @ b # bs)" using ring_distinct[OF r] by simp
  have "ring ?s1 ((h # as @ a # ms) @ bs)"
    by (rule list_del_ring[OF r]) simp
  then have r1: "ring ?s1 ((h # as) @ a # (ms @ bs))" by simp
  have r2: "ring ?s2 ((h # as) @ b # (ms @ bs))"
    using d by (intro list_replace_ring[OF r1]) auto
  show ?thesis
  proof (cases ms rule: rev_cases)
    case Nil
    have "prev (s b) = a" using ring_prev_at[of s "h # as" a b bs] r Nil by simp
    moreover have "ring (list_add a b ?s2) ((h # as) @ b # a # bs)"
      using r2 d Nil by (intro list_add_ring) auto
    ultimately show ?thesis using Nil by (simp add: list_swap_eq dlist_def)
  next
    case (snoc ms' m)
    have "prev (s b) = m" using ring_prev_at[of s "h # as @ a # ms'" m b bs] r snoc by simp
    moreover have "m \<noteq> a" using d snoc by auto
    moreover have "ring (list_add a m ?s2) ((h # as @ b # ms') @ m # a # bs)"
      using r2 d snoc by (intro list_add_ring) auto
    ultimately show ?thesis using snoc by (simp add: list_swap_eq dlist_def)
  qed
qed

lemma list_swap_backward:
  assumes "dlist s h (as @ b # ms @ a # bs)"
  shows "dlist (list_swap a b s) h (as @ a # ms @ b # bs)"
proof -
  let ?s1 = "list_del b s" and ?s2 = "list_replace a b (list_del b s)"
  have r: "ring s ((h # as) @ b # (ms @ a # bs))" using assms by (simp add: dlist_def)
  have d: "distinct (h # as @ b # ms @ a # bs)" using ring_distinct[OF r] by simp
  have "ring ?s1 ((h # as) @ (ms @ a # bs))"
    by (rule list_del_ring[OF r]) simp
  then have r1: "ring ?s1 ((h # as @ ms) @ a # bs)" by simp
  have r2: "ring ?s2 ((h # as @ ms) @ b # bs)"
    using d by (intro list_replace_ring[OF r1]) auto
  show ?thesis
  proof (cases as rule: rev_cases)
    case Nil
    have "prev (s b) = h" using ring_prev_at[of s "[]" h b "ms @ a # bs"] r Nil by simp
    moreover have "h \<noteq> a" using d by auto
    moreover have "ring ?s2 ([] @ h # (ms @ b # bs))" using r2 Nil by simp
    then have "ring (list_add a h ?s2) ([] @ h # a # (ms @ b # bs))"
      using d Nil by (intro list_add_ring) auto
    ultimately show ?thesis using Nil by (simp add: list_swap_eq dlist_def)
  next
    case (snoc as' p)
    have "prev (s b) = p" using ring_prev_at[of s "h # as'" p b "ms @ a # bs"] r snoc by simp
    moreover have "p \<noteq> a" using d snoc by auto
    moreover have "ring ?s2 ((h # as') @ p # (ms @ b # bs))" using r2 snoc by simp
    then have "ring (list_add a p ?s2) ((h # as') @ p # a # (ms @ b # bs))"
      using d snoc by (intro list_add_ring) auto
    ultimately show ?thesis using snoc by (simp add: list_swap_eq dlist_def)
  qed
qed

lemma list_swap_other:
  assumes "dlist s h1 (as @ a # bs)" "dlist s h2 (cs @ b # ds)"
    and disj: "set (h1 # as @ a # bs) \<inter> set (h2 # cs @ b # ds) = {}"
  shows "dlist (list_swap a b s) h1 (as @ b # bs) \<and> dlist (list_swap a b s) h2 (cs @ a # ds)"
proof -
  let ?s1 = "list_del b s" and ?s2 = "list_replace a b (list_del b s)"
  let ?A = "h1 # as @ a # bs" and ?B = "h2 # cs @ ds"
  have ra: "ring s ((h1 # as) @ a # bs)" and rb: "ring s ((h2 # cs) @ b # ds)"
    using assms(1,2) by (simp_all add: dlist_def)
  have da: "distinct (h1 # as @ a # bs)" and db: "distinct (h2 # cs @ b # ds)"
    using ring_distinct[OF ra] ring_distinct[OF rb] by simp_all
  have b1: "ring ?s1 ((h2 # cs) @ ds)"
    by (rule list_del_ring[OF rb]) simp
  have "\<forall>x \<in> set ?A. ?s1 x = s x"
    using disj by (intro ballI list_del_frame[OF rb]) auto
  then have a1: "ring ?s1 ((h1 # as) @ a # bs)"
    using ra ring_cong[of ?A ?s1 s] by simp
  have a2: "ring ?s2 ((h1 # as) @ b # bs)"
    using disj by (intro list_replace_ring[OF a1]) auto
  have "\<forall>x \<in> set ?B. ?s2 x = ?s1 x"
    using disj db by (intro ballI list_replace_frame[OF a1]) auto
  then have b2: "ring ?s2 ((h2 # cs) @ ds)"
    using b1 ring_cong[of ?B ?s2 ?s1] by simp
  have frame3: "ring (list_add a p ?s2) ((h1 # as) @ b # bs)" if "p \<in> set (h2 # cs)" for p
  proof -
    have "\<forall>x \<in> set (h1 # as @ b # bs). list_add a p ?s2 x = ?s2 x"
      using disj da db that by (intro ballI list_add_frame[OF b2]) auto
    then show ?thesis using a2 ring_cong[of "h1 # as @ b # bs" "list_add a p ?s2" ?s2] by simp
  qed
  have an: "a \<notin> set (h2 # cs @ ds)" using disj by auto
  show ?thesis
  proof (cases cs rule: rev_cases)
    case Nil
    have "prev (s b) = h2" using ring_prev_at[of s "[]" h2 b ds] rb Nil by simp
    moreover have "h2 \<noteq> a" using disj by auto
    moreover have "ring ?s2 ([] @ h2 # ds)" using b2 Nil by simp
    then have "ring (list_add a h2 ?s2) ([] @ h2 # a # ds)"
      using an Nil by (intro list_add_ring) auto
    ultimately show ?thesis using Nil frame3[of h2] by (simp add: list_swap_eq dlist_def)
  next
    case (snoc cs' p)
    have "prev (s b) = p" using ring_prev_at[of s "h2 # cs'" p b ds] rb snoc by simp
    moreover have "p \<noteq> a" using disj snoc by auto
    moreover have "ring ?s2 ((h2 # cs') @ p # ds)" using b2 snoc by simp
    then have "ring (list_add a p ?s2) ((h2 # cs') @ p # a # ds)"
      using an snoc by (intro list_add_ring) auto
    ultimately show ?thesis using snoc frame3[of p] by (simp add: list_swap_eq dlist_def)
  qed
qed

lemma dlist_linked:
  "dlist s h xs \<Longrightarrow> n \<in> set (h # xs) \<Longrightarrow> linked s n"
  unfolding dlist_def by (rule ring_linked)

lemma dlist_closed:
  "dlist s h xs \<Longrightarrow> n \<in> set (h # xs) \<Longrightarrow> next (s n) \<in> set (h # xs) \<and> prev (s n) \<in> set (h # xs)"
  unfolding dlist_def by (rule ring_closed)

lemma list_add_dlist:
  assumes "dlist s h xs" "n \<notin> set (h # xs)"
  shows "dlist (list_add n h s) h (n # xs)"
  using list_add_head[of s h xs n] assms by (simp add: dlist_def)

lemma list_add_tail_dlist:
  assumes "dlist s h xs" "n \<notin> set (h # xs)"
  shows "dlist (list_add_tail n h s) h (xs @ [n])"
  using list_add_tail_head[of s h xs n] assms by (simp add: dlist_def)

lemma list_add_after_dlist:
  assumes "dlist s h (as @ p # bs)" "n \<notin> set (h # as @ p # bs)"
  shows "dlist (list_add n p s) h (as @ p # n # bs)"
  using list_add_ring[of s "h # as" p bs n] assms by (simp add: dlist_def)

lemma list_add_tail_before_dlist:
  assumes "dlist s h (as @ p # bs)" "n \<notin> set (h # as @ p # bs)"
  shows "dlist (list_add_tail n p s) h (as @ n # p # bs)"
  using list_add_tail_ring[of s "h # as" p bs n] assms by (simp add: dlist_def)

lemma list_del_dlist:
  assumes "dlist s h (as @ e # bs)"
  shows "dlist (list_del e s) h (as @ bs)"
  using list_del_ring[of s "h # as" e bs] assms by (simp add: dlist_def)

lemma list_del_init_dlist:
  assumes "dlist s h (as @ e # bs)"
  shows "dlist (list_del_init e s) h (as @ bs) \<and> dlist (list_del_init e s) e []"
  using list_del_init_ring[of s "h # as" e bs] assms by (simp add: dlist_def)

lemma list_replace_dlist:
  assumes "dlist s h (as @ old # bs)" "new \<notin> set (h # as @ old # bs)"
  shows "dlist (list_replace old new s) h (as @ new # bs)"
  using list_replace_ring[of s "h # as" old bs new] assms by (simp add: dlist_def)

section \<open>What the operations leave alone\<close>

lemma set_next_other: "x \<noteq> a \<Longrightarrow> set_next a v s x = s x"
  by (simp add: set_next_def)

lemma set_prev_other: "x \<noteq> a \<Longrightarrow> set_prev a v s x = s x"
  by (simp add: set_prev_def)

lemmas frame_simps = list_defs set_next_other set_prev_other

lemma frame_init: "x \<noteq> l \<Longrightarrow> INIT_LIST_HEAD l s x = s x"
  by (simp add: frame_simps)

lemma frame_add:
  assumes "x \<noteq> n" "x \<noteq> p" "x \<noteq> next (s p)" "x \<noteq> prev (s p)"
  shows "list_add n p s x = s x" "list_add_tail n p s x = s x"
  using assms by (simp_all add: frame_simps)

lemma frame_del:
  assumes "x \<noteq> e" "x \<noteq> next (s e)" "x \<noteq> prev (s e)"
  shows "list_del e s x = s x" "list_del_init e s x = s x"
  using assms by (simp_all add: frame_simps)

lemma frame_replace:
  assumes "x \<noteq> new" "x \<noteq> old" "x \<noteq> next (s old)" "x \<noteq> prev (s old)"
  shows "list_replace old new s x = s x"
  using assms by (simp add: frame_simps)

lemma frame_move:
  assumes "x \<noteq> e" "x \<noteq> h" "x \<noteq> next (s e)" "x \<noteq> prev (s e)"
    "x \<noteq> next (s h)" "x \<noteq> prev (s h)"
  shows "list_move e h s x = s x" "list_move_tail e h s x = s x"
  using assms by (simp_all add: frame_simps)

lemma frame_rotate:
  assumes "x \<noteq> h" "x \<noteq> next (s h)" "x \<noteq> prev (s h)"
    "x \<noteq> next (s (next (s h)))" "x \<noteq> prev (s (next (s h)))"
  shows "list_rotate_left h s x = s x"
  using assms frame_move(2)[of x "next (s h)" h s]
  by (simp add: list_rotate_left_def Let_def)

lemma frame_bulk:
  assumes "x \<noteq> h" "x \<noteq> f" "x \<noteq> l" "x \<noteq> prev (s h)" "x \<noteq> prev (s f)" "x \<noteq> next (s l)"
  shows "list_bulk_move_tail h f l s x = s x"
  using assms by (simp add: list_bulk_move_tail_def Let_def set_next_other set_prev_other)

lemma frame_splice:
  assumes "x \<noteq> l" "x \<noteq> h" "x \<noteq> next (s l)" "x \<noteq> prev (s l)"
    "x \<noteq> next (s h)" "x \<noteq> prev (s h)"
  shows "list_splice l h s x = s x" "list_splice_tail l h s x = s x"
    "list_splice_init l h s x = s x" "list_splice_tail_init l h s x = s x"
  using assms
  by (simp_all add: list_splice_def list_splice_tail_def list_splice_init_def
      list_splice_tail_init_def raw_list_splice_def INIT_LIST_HEAD_def Let_def
      set_next_other set_prev_other)

lemma frame_cut:
  assumes "x \<noteq> l" "x \<noteq> h" "x \<noteq> e" "x \<noteq> next (s h)" "x \<noteq> next (s e)" "x \<noteq> prev (s e)"
  shows "list_cut_position l h e s x = s x" "list_cut_before l h e s x = s x"
  using assms
  by (simp_all add: list_cut_position_def raw_list_cut_position_def list_cut_before_def
      INIT_LIST_HEAD_def Let_def set_next_other set_prev_other)

lemma frame_swap:
  assumes "x \<noteq> a" "x \<noteq> b" "a \<noteq> b" "x \<noteq> prev (s a)" "x \<noteq> next (s a)"
    "x \<noteq> prev (s b)" "x \<noteq> next (s b)"
  shows "list_swap a b s x = s x"
  using assms by (simp add: list_swap_def frame_simps)

lemma closed_next: "closed_under_links s N \<Longrightarrow> a \<in> N \<Longrightarrow> x \<notin> N \<Longrightarrow> x \<noteq> next (s a)"
  by (auto simp: closed_under_links_def)

lemma closed_prev: "closed_under_links s N \<Longrightarrow> a \<in> N \<Longrightarrow> x \<notin> N \<Longrightarrow> x \<noteq> prev (s a)"
  by (auto simp: closed_under_links_def)

lemma closed_self: "a \<in> N \<Longrightarrow> x \<notin> N \<Longrightarrow> x \<noteq> a"
  by auto

lemma closed_next_in: "closed_under_links s N \<Longrightarrow> a \<in> N \<Longrightarrow> next (s a) \<in> N"
  by (auto simp: closed_under_links_def)

lemma run_op_frame:
  assumes c: "closed_under_links s N" and args: "linked_args op \<subseteq> N"
    and x: "x \<notin> N" "x \<notin> fresh_args op" and sw: "\<And>a. op \<noteq> Swap a a"
  shows "run_op op s x = s x"
proof -
  note n = closed_next[OF c _ x(1)] and p = closed_prev[OF c _ x(1)]
    and i = closed_self[OF _ x(1)]
  show ?thesis
  proof (cases op)
    case (Init l)
    then show ?thesis using x(2) by (simp add: frame_init)
  next
    case (Add n' p')
    then show ?thesis using args x(2) by (simp add: frame_add n p i)
  next
    case (Add_tail n' p')
    then show ?thesis using args x(2) by (simp add: frame_add n p i)
  next
    case (Del e)
    then show ?thesis using args by (simp add: frame_del n p i)
  next
    case (Del_init e)
    then show ?thesis using args by (simp add: frame_del n p i)
  next
    case (Replace old new)
    then show ?thesis using args x(2) by (simp add: frame_replace n p i)
  next
    case (Move e h)
    then show ?thesis using args by (simp add: frame_move n p i)
  next
    case (Move_tail e h)
    then show ?thesis using args by (simp add: frame_move n p i)
  next
    case (Bulk_move_tail h f l)
    then show ?thesis using args by (simp add: frame_bulk n p i)
  next
    case (Splice l h)
    then show ?thesis using args by (simp add: frame_splice n p i)
  next
    case (Splice_tail l h)
    then show ?thesis using args by (simp add: frame_splice n p i)
  next
    case (Splice_init l h)
    then show ?thesis using args by (simp add: frame_splice n p i)
  next
    case (Splice_tail_init l h)
    then show ?thesis using args by (simp add: frame_splice n p i)
  next
    case (Cut_position l h e)
    then show ?thesis using args x(2) by (simp add: frame_cut n p i)
  next
    case (Cut_before l h e)
    then show ?thesis using args x(2) by (simp add: frame_cut n p i)
  next
    case (Rotate_left h)
    then have h: "h \<in> N" using args by simp
    have "next (s h) \<in> N" by (rule closed_next_in[OF c h])
    then show ?thesis using Rotate_left h by (simp add: frame_rotate n p i)
  next
    case (Swap a b)
    then have "a \<noteq> b" using sw by auto
    then show ?thesis using Swap args by (simp add: frame_swap n p i)
  qed
qed

lemma dlist_closed_under_links: "dlist s h xs \<Longrightarrow> closed_under_links s (set (h # xs))"
  unfolding closed_under_links_def using dlist_closed[of s h xs] by blast

lemma closed_under_links_Un:
  "closed_under_links s A \<Longrightarrow> closed_under_links s B \<Longrightarrow> closed_under_links s (A \<union> B)"
  by (auto simp: closed_under_links_def)

lemma run_op_other_list:
  assumes "dlist s h xs" "dlist s h2 ys" "linked_args op \<subseteq> set (h # xs) \<union> set (h2 # ys)"
    and "\<And>a. op \<noteq> Swap a a" and "dlist s h3 zs"
    and "set (h3 # zs) \<inter> (set (h # xs) \<union> set (h2 # ys) \<union> fresh_args op) = {}"
  shows "dlist (run_op op s) h3 zs"
proof -
  have c: "closed_under_links s (set (h # xs) \<union> set (h2 # ys))"
    by (intro closed_under_links_Un dlist_closed_under_links assms(1,2))
  have "\<forall>x \<in> set (h3 # zs). run_op op s x = s x"
  proof
    fix x assume "x \<in> set (h3 # zs)"
    then have "x \<notin> set (h # xs) \<union> set (h2 # ys)" "x \<notin> fresh_args op"
      using assms(6) by auto
    then show "run_op op s x = s x"
      using run_op_frame[OF c assms(3) _ _ assms(4)] by blast
  qed
  then show ?thesis
    using assms(5) ring_cong[of "h3 # zs" "run_op op s" s] by (simp add: dlist_def)
qed

section \<open>The linkage invariant\<close>

lemma dlist_linked_list: "dlist s h xs \<Longrightarrow> linked_list s h xs"
  unfolding linked_list_def using dlist_linked[of s h xs] dlist_closed[of s h xs] by blast

lemma ex_heap_lists: "dlist ex_heap 1 [2, 3, 4]" "dlist ex_heap 5 [6, 7]"
  by (simp_all add: dlist_def ex_heap_def)

text \<open>
  Claim C1, as the code has it. Every list operation, applied to well-formed lists
  and to nodes as its documentation asks, leaves the list it works on well formed
  with the stated entries, every node of it reciprocally linked: the list with head
  \<open>h\<close> that holds the affected entry, the destination of a move, a splice or a cut,
  and the source of a splice when the \<^verbatim>\<open>_init\<close> variant reinitialises it. Nothing
  is stated about the head of a non-empty source list after a plain
  \<^verbatim>\<open>list_splice\<close> or \<^verbatim>\<open>list_splice_tail\<close>, which the code does not rewrite.
  The last part is about the lists an operation is not applied to: when the
  arguments it reads are nodes of the well-formed lists \<open>h\<close> and \<open>h2\<close>, a
  well-formed list \<open>h3\<close> that shares no node with these and is none of the
  arguments it initialises stays as it is.
\<close>

theorem list_operations_keep_linkage:
  "linked_list (INIT_LIST_HEAD l s) l []
   \<and> (dlist s h xs \<and> n \<notin> set (h # xs) \<longrightarrow> linked_list (list_add n h s) h (n # xs))
   \<and> (dlist s h (as @ e # bs) \<and> n \<notin> set (h # as @ e # bs)
        \<longrightarrow> linked_list (list_add n e s) h (as @ e # n # bs))
   \<and> (dlist s h xs \<and> n \<notin> set (h # xs) \<longrightarrow> linked_list (list_add_tail n h s) h (xs @ [n]))
   \<and> (dlist s h (as @ e # bs) \<and> n \<notin> set (h # as @ e # bs)
        \<longrightarrow> linked_list (list_add_tail n e s) h (as @ n # e # bs))
   \<and> (dlist s h (as @ e # bs) \<longrightarrow> linked_list (list_del e s) h (as @ bs))
   \<and> (dlist s h (as @ e # bs)
        \<longrightarrow> linked_list (list_del_init e s) h (as @ bs) \<and> linked_list (list_del_init e s) e [])
   \<and> (dlist s h (as @ e # bs) \<and> n \<notin> set (h # as @ e # bs)
        \<longrightarrow> linked_list (list_replace e n s) h (as @ n # bs))
   \<and> (dlist s h (as @ e # bs) \<longrightarrow> linked_list (list_move e h s) h (e # as @ bs))
   \<and> (dlist s h (as @ e # bs) \<and> dlist s h2 ys \<and> set (h # as @ e # bs) \<inter> set (h2 # ys) = {}
        \<longrightarrow> linked_list (list_move e h2 s) h (as @ bs) \<and> linked_list (list_move e h2 s) h2 (e # ys))
   \<and> (dlist s h (as @ e # bs) \<longrightarrow> linked_list (list_move_tail e h s) h (as @ bs @ [e]))
   \<and> (dlist s h (as @ e # bs) \<and> dlist s h2 ys \<and> set (h # as @ e # bs) \<inter> set (h2 # ys) = {}
        \<longrightarrow> linked_list (list_move_tail e h2 s) h (as @ bs)
            \<and> linked_list (list_move_tail e h2 s) h2 (ys @ [e]))
   \<and> (dlist s h (as @ run @ bs) \<and> run \<noteq> []
        \<longrightarrow> linked_list (list_bulk_move_tail h (hd run) (last run) s) h (as @ bs @ run))
   \<and> (dlist s h2 ys \<and> dlist s h xs \<and> set (h2 # ys) \<inter> set (h # xs) = {}
        \<longrightarrow> linked_list (list_splice h2 h s) h (ys @ xs)
            \<and> linked_list (list_splice_tail h2 h s) h (xs @ ys)
            \<and> linked_list (list_splice_init h2 h s) h (ys @ xs)
            \<and> linked_list (list_splice_init h2 h s) h2 []
            \<and> linked_list (list_splice_tail_init h2 h s) h (xs @ ys)
            \<and> linked_list (list_splice_tail_init h2 h s) h2 [])
   \<and> (dlist s h (as @ e # bs) \<and> dest \<notin> set (h # as @ e # bs)
        \<longrightarrow> linked_list (list_cut_position dest h e s) dest (as @ [e])
            \<and> linked_list (list_cut_position dest h e s) h bs)
   \<and> (dlist s h xs \<and> xs \<noteq> [] \<and> dest \<notin> set (h # xs)
        \<longrightarrow> linked_list (list_cut_position dest h h s) dest []
            \<and> linked_list (list_cut_position dest h h s) h xs)
   \<and> (dlist s h [] \<longrightarrow> linked_list (list_cut_position dest h h s) h [])
   \<and> (dlist s h (as @ e # bs) \<and> dest \<notin> set (h # as @ e # bs)
        \<longrightarrow> linked_list (list_cut_before dest h e s) dest as
            \<and> linked_list (list_cut_before dest h e s) h (e # bs))
   \<and> (dlist s h xs \<and> dest \<notin> set (h # xs)
        \<longrightarrow> linked_list (list_cut_before dest h h s) dest xs
            \<and> linked_list (list_cut_before dest h h s) h [])
   \<and> (dlist s h xs \<longrightarrow> linked_list (list_rotate_left h s) h (rotate1 xs))
   \<and> (dlist s h (as @ a # ms @ b # cs)
        \<longrightarrow> linked_list (list_swap a b s) h (as @ b # ms @ a # cs))
   \<and> (dlist s h (as @ b # ms @ a # cs)
        \<longrightarrow> linked_list (list_swap a b s) h (as @ a # ms @ b # cs))
   \<and> (dlist s h (as @ a # cs) \<and> dlist s h2 (ds @ b # es)
        \<and> set (h # as @ a # cs) \<inter> set (h2 # ds @ b # es) = {}
        \<longrightarrow> linked_list (list_swap a b s) h (as @ b # cs)
            \<and> linked_list (list_swap a b s) h2 (ds @ a # es))
   \<and> (dlist s h xs \<and> dlist s h2 ys \<and> linked_args op \<subseteq> set (h # xs) \<union> set (h2 # ys)
        \<and> (\<forall>c. op \<noteq> Swap c c) \<and> dlist s h3 zs
        \<and> set (h3 # zs) \<inter> (set (h # xs) \<union> set (h2 # ys) \<union> fresh_args op) = {}
        \<longrightarrow> linked_list (run_op op s) h3 zs)"
proof -
  note L = dlist_linked_list
  have splice: "linked_list (list_splice h2 h s) h (ys @ xs)
            \<and> linked_list (list_splice_tail h2 h s) h (xs @ ys)
            \<and> linked_list (list_splice_init h2 h s) h (ys @ xs)
            \<and> linked_list (list_splice_init h2 h s) h2 []
            \<and> linked_list (list_splice_tail_init h2 h s) h (xs @ ys)
            \<and> linked_list (list_splice_tail_init h2 h s) h2 []"
    if a: "dlist s h2 ys" "dlist s h xs" "set (h2 # ys) \<inter> set (h # xs) = {}"
  proof (cases "ys = []")
    case True
    then show ?thesis using a list_splice_empty[of s h2 h] by (simp add: L)
  next
    case False
    then show ?thesis
      using list_splice_dlist[OF a(1) False a(2,3)] list_splice_tail_dlist[OF a(1) False a(2,3)]
        list_splice_init_dlist[OF a(1) False a(2,3)]
        list_splice_tail_init_dlist[OF a(1) False a(2,3)]
      by (simp add: L)
  qed
  have rot: "linked_list (list_rotate_left h s) h (rotate1 xs)" if "dlist s h xs"
    using that list_rotate_left_dlist[of s h] list_rotate_left_empty[of s h]
    by (cases xs) (auto intro: L)
  show ?thesis
    apply (intro conjI impI)
    subgoal by (rule L[OF dlist_INIT])
    subgoal by (rule L[OF list_add_dlist]) auto
    subgoal by (rule L[OF list_add_after_dlist]) auto
    subgoal by (rule L[OF list_add_tail_dlist]) auto
    subgoal by (rule L[OF list_add_tail_before_dlist]) auto
    subgoal by (rule L[OF list_del_dlist])
    subgoal by (rule L[OF list_del_init_dlist[THEN conjunct1]])
    subgoal by (rule L[OF list_del_init_dlist[THEN conjunct2]])
    subgoal by (rule L[OF list_replace_dlist]) auto
    subgoal by (rule L[OF list_move_same])
    subgoal by (rule L[OF list_move_other[THEN conjunct1]]) auto
    subgoal by (rule L[OF list_move_other[THEN conjunct2]]) auto
    subgoal by (rule L[OF list_move_tail_same])
    subgoal by (rule L[OF list_move_tail_other[THEN conjunct1]]) auto
    subgoal by (rule L[OF list_move_tail_other[THEN conjunct2]]) auto
    subgoal by (rule L[OF list_bulk_move_tail_dlist]) auto
    subgoal using splice by blast
    subgoal using splice by blast
    subgoal using splice by blast
    subgoal using splice by blast
    subgoal using splice by blast
    subgoal using splice by blast
    subgoal by (rule L[OF list_cut_position_dlist[THEN conjunct1]]) auto
    subgoal by (rule L[OF list_cut_position_dlist[THEN conjunct2]]) auto
    subgoal using list_cut_position_head[of s h xs dest] by (auto simp: L dlist_INIT)
    subgoal using list_cut_position_head[of s h xs dest] by (auto simp: L dlist_INIT_other)
    subgoal by (simp add: list_cut_position_empty L)
    subgoal by (rule L[OF list_cut_before_dlist[THEN conjunct1]]) auto
    subgoal by (rule L[OF list_cut_before_dlist[THEN conjunct2]]) auto
    subgoal by (rule L[OF list_cut_before_head[THEN conjunct1]]) auto
    subgoal by (rule L[OF list_cut_before_head[THEN conjunct2]]) auto
    subgoal by (rule rot)
    subgoal by (rule L[OF list_swap_forward])
    subgoal by (rule L[OF list_swap_backward])
    subgoal by (rule L[OF list_swap_other[THEN conjunct1]]) auto
    subgoal by (rule L[OF list_swap_other[THEN conjunct2]]) auto
    subgoal by (rule L[OF run_op_other_list[of s h xs h2 ys]]) auto
    done
qed

theorem list_operations_keep_linkage_witness:
  "linked_list (INIT_LIST_HEAD 9 ex_heap) 9 []
   \<and> linked_list (list_add 8 1 ex_heap) 1 [8, 2, 3, 4]
   \<and> linked_list (list_add 8 3 ex_heap) 1 [2, 3, 8, 4]
   \<and> linked_list (list_add_tail 8 1 ex_heap) 1 [2, 3, 4, 8]
   \<and> linked_list (list_add_tail 8 3 ex_heap) 1 [2, 8, 3, 4]
   \<and> linked_list (list_del 3 ex_heap) 1 [2, 4]
   \<and> linked_list (list_del_init 3 ex_heap) 1 [2, 4]
   \<and> linked_list (list_del_init 3 ex_heap) 3 []
   \<and> linked_list (list_replace 3 8 ex_heap) 1 [2, 8, 4]
   \<and> linked_list (list_move 3 1 ex_heap) 1 [3, 2, 4]
   \<and> linked_list (list_move 3 5 ex_heap) 1 [2, 4]
   \<and> linked_list (list_move 3 5 ex_heap) 5 [3, 6, 7]
   \<and> linked_list (list_move_tail 3 1 ex_heap) 1 [2, 4, 3]
   \<and> linked_list (list_move_tail 3 5 ex_heap) 5 [6, 7, 3]
   \<and> linked_list (list_bulk_move_tail 1 3 3 ex_heap) 1 [2, 4, 3]
   \<and> linked_list (list_splice 5 1 ex_heap) 1 [6, 7, 2, 3, 4]
   \<and> linked_list (list_splice_tail 5 1 ex_heap) 1 [2, 3, 4, 6, 7]
   \<and> linked_list (list_splice_init 5 1 ex_heap) 1 [6, 7, 2, 3, 4]
   \<and> linked_list (list_splice_init 5 1 ex_heap) 5 []
   \<and> linked_list (list_splice_tail_init 5 1 ex_heap) 1 [2, 3, 4, 6, 7]
   \<and> linked_list (list_splice_tail_init 5 1 ex_heap) 5 []
   \<and> linked_list (list_cut_position 9 1 3 ex_heap) 9 [2, 3]
   \<and> linked_list (list_cut_position 9 1 3 ex_heap) 1 [4]
   \<and> linked_list (list_cut_position 9 1 1 ex_heap) 9 []
   \<and> linked_list (list_cut_position 9 1 1 ex_heap) 1 [2, 3, 4]
   \<and> linked_list (list_cut_position 8 9 9 (INIT_LIST_HEAD 9 ex_heap)) 9 []
   \<and> linked_list (list_cut_before 9 1 3 ex_heap) 9 [2]
   \<and> linked_list (list_cut_before 9 1 3 ex_heap) 1 [3, 4]
   \<and> linked_list (list_cut_before 9 1 1 ex_heap) 9 [2, 3, 4]
   \<and> linked_list (list_cut_before 9 1 1 ex_heap) 1 []
   \<and> linked_list (list_rotate_left 1 ex_heap) 1 [3, 4, 2]
   \<and> linked_list (list_swap 3 4 ex_heap) 1 [2, 4, 3]
   \<and> linked_list (list_swap 3 2 ex_heap) 1 [3, 2, 4]
   \<and> linked_list (list_swap 3 6 ex_heap) 1 [2, 6, 4]
   \<and> linked_list (list_swap 3 6 ex_heap) 5 [3, 7]
   \<and> linked_list (run_op (Del 3) ex_heap) 5 [6, 7]
   \<and> linked_list (run_op (Swap 2 4) ex_heap) 5 [6, 7]"
  using
    list_operations_keep_linkage[where s = ex_heap and l = 9 and h = 1 and xs = "[2, 3, 4]"
      and n = 8 and as = "[2]" and e = 3 and bs = "[4]" and ?h2.0 = 5 and ys = "[6, 7]"
      and run = "[3]" and dest = 9 and a = 3 and ms = "[]" and b = 4 and cs = "[]"
      and ds = "[]" and es = "[]" and op = "Init 9" and ?h3.0 = 9 and zs = "[]"]
    list_operations_keep_linkage[where s = ex_heap and l = 9 and h = 1 and xs = "[2, 3, 4]"
      and n = 8 and as = "[]" and e = 2 and bs = "[3, 4]" and ?h2.0 = 5 and ys = "[6, 7]"
      and run = "[2]" and dest = 9 and a = 3 and ms = "[]" and b = 2 and cs = "[4]"
      and ds = "[]" and es = "[]" and op = "Init 9" and ?h3.0 = 9 and zs = "[]"]
    list_operations_keep_linkage[where s = ex_heap and l = 9 and h = 1 and xs = "[2, 3, 4]"
      and n = 8 and as = "[2]" and e = 3 and bs = "[4]" and ?h2.0 = 5 and ys = "[6, 7]"
      and run = "[3]" and dest = 9 and a = 3 and ms = "[]" and b = 6 and cs = "[4]"
      and ds = "[]" and es = "[7]" and op = "Init 9" and ?h3.0 = 9 and zs = "[]"]
    list_operations_keep_linkage[where s = "INIT_LIST_HEAD 9 ex_heap" and l = 9 and h = 9
      and xs = "[]" and n = 8 and as = "[]" and e = 9 and bs = "[]" and ?h2.0 = 9 and ys = "[]"
      and run = "[]" and dest = 8 and a = 9 and ms = "[]" and b = 9 and cs = "[]"
      and ds = "[]" and es = "[]" and op = "Init 9" and ?h3.0 = 9 and zs = "[]"]
    list_operations_keep_linkage[where s = ex_heap and l = 9 and h = 1 and xs = "[2, 3, 4]"
      and n = 8 and as = "[2]" and e = 3 and bs = "[4]" and ?h2.0 = 1 and ys = "[2, 3, 4]"
      and run = "[3]" and dest = 9 and a = 3 and ms = "[]" and b = 4 and cs = "[]"
      and ds = "[]" and es = "[]" and op = "Del 3" and ?h3.0 = 5 and zs = "[6, 7]"]
    list_operations_keep_linkage[where s = ex_heap and l = 9 and h = 1 and xs = "[2, 3, 4]"
      and n = 8 and as = "[2]" and e = 3 and bs = "[4]" and ?h2.0 = 1 and ys = "[2, 3, 4]"
      and run = "[3]" and dest = 9 and a = 3 and ms = "[]" and b = 4 and cs = "[]"
      and ds = "[]" and es = "[]" and op = "Swap 2 4" and ?h3.0 = 5 and zs = "[6, 7]"]
  by (simp add: ex_heap_lists dlist_INIT)

text \<open>
  The claim as it is written fails for the source head of a plain splice: after
  \<^verbatim>\<open>list_splice\<close> of the list with head 5 into the list with head 1, the head 5
  still points at its former first entry 6, whose \<open>prev\<close> is now the head 1.
\<close>

theorem list_splice_source_counterexample:
  "dlist ex_heap 5 [6, 7] \<and> dlist ex_heap 1 [2, 3, 4]
   \<and> next (list_splice 5 1 ex_heap 5) = 6
   \<and> prev (list_splice 5 1 ex_heap 6) = 1
   \<and> \<not> linked (list_splice 5 1 ex_heap) 5"
  by (simp add: list_splice_def raw_list_splice_def list_empty_def Let_def linked_def
      ex_heap_def dlist_def)

section \<open>Round trip, splice, cut and swap\<close>

lemma list_add_del_frame:
  assumes "dlist s h xs" "n \<notin> set (h # xs)" "p \<noteq> n"
  shows "list_del n (list_add n h s) p = s p"
  using assms
  by (cases xs) (auto simp: dlist_def list_defs set_next_def set_prev_def)

text \<open>
  Claim C3. Adding a detached node \<open>n\<close> after the head of a well-formed list and
  deleting it again gives back the list: the same entries in the same order, and
  every structure other than \<open>n\<close>, the head and all entries among them, holds the
  pointers it held before (the list may also be empty).
\<close>

theorem list_add_del_round_trip:
  assumes "dlist s h xs" "n \<notin> set (h # xs)"
  shows "dlist (list_del n (list_add n h s)) h xs
         \<and> (\<forall>p. p \<noteq> n \<longrightarrow> list_del n (list_add n h s) p = s p)"
proof -
  have "dlist (list_add n h s) h ([] @ n # xs)"
    using list_add_dlist[OF assms] by simp
  then have "dlist (list_del n (list_add n h s)) h ([] @ xs)"
    by (rule list_del_dlist)
  then show ?thesis using list_add_del_frame[OF assms] by simp
qed

theorem list_add_del_round_trip_witness:
  "dlist (list_del 8 (list_add 8 1 ex_heap)) 1 [2, 3, 4]
   \<and> list_del 8 (list_add 8 1 ex_heap) 1 = ex_heap 1
   \<and> list_del 8 (list_add 8 1 ex_heap) 2 = ex_heap 2
   \<and> list_del 8 (list_add 8 1 ex_heap) 4 = ex_heap 4"
  using list_add_del_round_trip[of ex_heap 1 "[2, 3, 4]" 8]
  by (simp add: ex_heap_lists)

lemma list_for_each_from_seg:
  "seg s p xs h \<Longrightarrow> h \<notin> set xs \<Longrightarrow>
   list_for_each_from (Suc (length xs)) s h (next (s p)) = Some xs"
  by (induction xs arbitrary: p) auto

lemma list_for_each_dlist:
  "dlist s h xs \<Longrightarrow> list_for_each (Suc (length xs)) s h = Some xs"
  using list_for_each_from_seg[of s h xs h] by (simp add: dlist_def list_for_each_def)

lemma dlist_next_head_mem: "dlist s h xs \<Longrightarrow> next (s h) \<in> set (h # xs)"
  using dlist_closed[of s h xs h] by simp

lemma dlist_prev_head_mem: "dlist s h xs \<Longrightarrow> prev (s h) \<in> set (h # xs)"
  using dlist_closed[of s h xs h] by simp

lemma list_splice_source:
  assumes "dlist s a as" "as \<noteq> []" "dlist s b bs" "set (a # as) \<inter> set (b # bs) = {}"
  shows "list_splice a b s a = s a" "list_splice_tail a b s a = s a"
proof -
  have "a \<noteq> b" "a \<noteq> next (s b)" "a \<noteq> prev (s b)"
    using assms(4) dlist_next_head_mem[OF assms(3)] dlist_prev_head_mem[OF assms(3)] by auto
  then show "list_splice a b s a = s a" "list_splice_tail a b s a = s a"
    using list_splice_frame[OF assms(1,2)] list_splice_tail_frame[OF assms(1,2)] by simp_all
qed

text \<open>
  Claim C4. Let \<open>A\<close> (head \<open>a\<close>, entries \<open>as\<close>) and \<open>B\<close> (head \<open>b\<close>, entries \<open>bs\<close>) be
  disjoint well-formed lists. If \<open>A\<close> is not empty, a front splice makes \<open>B\<close> the
  list \<open>as @ bs\<close>, which is the order \<^verbatim>\<open>list_for_each\<close> visits, and a tail splice
  makes it \<open>bs @ as\<close>; the \<^verbatim>\<open>_init\<close> variants leave \<open>A\<close> an empty list, the plain
  variants leave the head of \<open>A\<close> as it was, so not empty. If \<open>A\<close> is empty, every
  variant leaves the whole memory unchanged.
\<close>

theorem list_splice_correct:
  assumes "dlist s a as" "dlist s b bs" "set (a # as) \<inter> set (b # bs) = {}"
  shows "(as \<noteq> [] \<longrightarrow>
            dlist (list_splice a b s) b (as @ bs)
          \<and> list_for_each (Suc (length (as @ bs))) (list_splice a b s) b = Some (as @ bs)
          \<and> list_splice a b s a = s a \<and> \<not> list_empty (list_splice a b s) a
          \<and> dlist (list_splice_init a b s) b (as @ bs)
          \<and> list_for_each (Suc (length (as @ bs))) (list_splice_init a b s) b = Some (as @ bs)
          \<and> dlist (list_splice_init a b s) a [] \<and> list_empty (list_splice_init a b s) a
          \<and> dlist (list_splice_tail a b s) b (bs @ as)
          \<and> list_splice_tail a b s a = s a \<and> \<not> list_empty (list_splice_tail a b s) a
          \<and> dlist (list_splice_tail_init a b s) b (bs @ as)
          \<and> dlist (list_splice_tail_init a b s) a []
          \<and> list_empty (list_splice_tail_init a b s) a)
       \<and> (as = [] \<longrightarrow>
            list_splice a b s = s \<and> list_splice_init a b s = s
          \<and> list_splice_tail a b s = s \<and> list_splice_tail_init a b s = s)"
proof (intro conjI impI)
  assume ne: "as \<noteq> []"
  note sp = list_splice_dlist[OF assms(1) ne assms(2,3)]
    and spi = list_splice_init_dlist[OF assms(1) ne assms(2,3)]
    and spt = list_splice_tail_dlist[OF assms(1) ne assms(2,3)]
    and spti = list_splice_tail_init_dlist[OF assms(1) ne assms(2,3)]
    and src = list_splice_source[OF assms(1) ne assms(2,3)]
  have e: "\<not> list_empty s a" using dlist_empty_iff[OF assms(1)] ne by simp
  show "dlist (list_splice a b s) b (as @ bs)" by (rule sp)
  show "list_for_each (Suc (length (as @ bs))) (list_splice a b s) b = Some (as @ bs)"
    by (rule list_for_each_dlist[OF sp])
  show "list_splice a b s a = s a" by (rule src(1))
  show "\<not> list_empty (list_splice a b s) a" using e src(1) by (simp add: list_empty_def)
  show "dlist (list_splice_init a b s) b (as @ bs)" using spi by simp
  show "list_for_each (Suc (length (as @ bs))) (list_splice_init a b s) b = Some (as @ bs)"
    using list_for_each_dlist[OF spi[THEN conjunct1]] .
  show "dlist (list_splice_init a b s) a []" using spi by simp
  show "list_empty (list_splice_init a b s) a"
    using dlist_empty_iff[OF spi[THEN conjunct2]] by simp
  show "dlist (list_splice_tail a b s) b (bs @ as)" by (rule spt)
  show "list_splice_tail a b s a = s a" by (rule src(2))
  show "\<not> list_empty (list_splice_tail a b s) a" using e src(2) by (simp add: list_empty_def)
  show "dlist (list_splice_tail_init a b s) b (bs @ as)" using spti by simp
  show "dlist (list_splice_tail_init a b s) a []" using spti by simp
  show "list_empty (list_splice_tail_init a b s) a"
    using dlist_empty_iff[OF spti[THEN conjunct2]] by simp
next
  assume "as = []"
  then have d: "dlist s a []" using assms(1) by simp
  show "list_splice a b s = s" "list_splice_init a b s = s"
    "list_splice_tail a b s = s" "list_splice_tail_init a b s = s"
    using list_splice_empty[OF d] by simp_all
qed

theorem list_splice_correct_witness:
  "dlist (list_splice 5 1 ex_heap) 1 [6, 7, 2, 3, 4]
   \<and> list_for_each (Suc (length [6, 7, 2, 3, 4 :: addr])) (list_splice 5 1 ex_heap) 1
       = Some [6, 7, 2, 3, 4]
   \<and> \<not> list_empty (list_splice 5 1 ex_heap) 5
   \<and> dlist (list_splice_init 5 1 ex_heap) 1 [6, 7, 2, 3, 4]
   \<and> dlist (list_splice_init 5 1 ex_heap) 5 []
   \<and> dlist (list_splice_tail 5 1 ex_heap) 1 [2, 3, 4, 6, 7]
   \<and> dlist (list_splice_tail_init 5 1 ex_heap) 5 []
   \<and> list_splice 9 1 (INIT_LIST_HEAD 9 ex_heap) = INIT_LIST_HEAD 9 ex_heap
   \<and> list_splice_tail_init 9 1 (INIT_LIST_HEAD 9 ex_heap) = INIT_LIST_HEAD 9 ex_heap"
  using list_splice_correct[of ex_heap 5 "[6, 7]" 1 "[2, 3, 4]"]
    list_splice_correct[of "INIT_LIST_HEAD 9 ex_heap" 9 "[]" 1 "[2, 3, 4]"]
  by (simp add: ex_heap_lists dlist_INIT dlist_INIT_other)

text \<open>
  Claim C5, as the code has it. For a well-formed list \<open>head\<close> and an entry of it,
  \<^verbatim>\<open>list_cut_position\<close> moves the entries up to and including \<open>entry\<close> into
  \<open>dest\<close> and leaves the rest in \<open>head\<close>. When \<open>entry\<close> is the head of a list that
  is not empty, nothing is moved and \<open>dest\<close> is initialised to the empty list.
  When the list is empty, the call returns at once and writes nothing, so \<open>dest\<close>
  stays what it was.
\<close>

theorem list_cut_position_correct:
  "(dlist s h (pre @ e # post) \<and> dest \<notin> set (h # pre @ e # post)
      \<longrightarrow> dlist (list_cut_position dest h e s) dest (pre @ [e])
          \<and> dlist (list_cut_position dest h e s) h post)
   \<and> (dlist s h xs \<and> xs \<noteq> [] \<and> dest \<notin> set (h # xs)
      \<longrightarrow> dlist (list_cut_position dest h h s) dest []
          \<and> dlist (list_cut_position dest h h s) h xs)
   \<and> (dlist s h [] \<longrightarrow> list_cut_position dest h h s = s)"
proof (intro conjI impI)
  assume a: "dlist s h (pre @ e # post) \<and> dest \<notin> set (h # pre @ e # post)"
  then show "dlist (list_cut_position dest h e s) dest (pre @ [e])"
    "dlist (list_cut_position dest h e s) h post"
    using list_cut_position_dlist[of s h pre e post dest] by simp_all
next
  assume a: "dlist s h xs \<and> xs \<noteq> [] \<and> dest \<notin> set (h # xs)"
  then have "list_cut_position dest h h s = INIT_LIST_HEAD dest s"
    using list_cut_position_head[of s h xs dest] by simp
  then show "dlist (list_cut_position dest h h s) dest []"
    "dlist (list_cut_position dest h h s) h xs"
    using a by (simp_all add: dlist_INIT dlist_INIT_other)
next
  assume "dlist s h []"
  then show "list_cut_position dest h h s = s" by (rule list_cut_position_empty)
qed

theorem list_cut_position_correct_witness:
  "dlist (list_cut_position 9 1 3 ex_heap) 9 [2, 3]
   \<and> dlist (list_cut_position 9 1 3 ex_heap) 1 [4]
   \<and> dlist (list_cut_position 9 1 1 ex_heap) 9 []
   \<and> dlist (list_cut_position 9 1 1 ex_heap) 1 [2, 3, 4]
   \<and> list_cut_position 5 9 9 (INIT_LIST_HEAD 9 ex_heap) = INIT_LIST_HEAD 9 ex_heap"
  using list_cut_position_correct[of ex_heap 1 "[2]" 3 "[4]" 9 "[2, 3, 4]"]
    list_cut_position_correct[of "INIT_LIST_HEAD 9 ex_heap" 9 "[]" 9 "[]" 5 "[]"]
  by (simp add: ex_heap_lists dlist_INIT)

text \<open>
  The claim as it is written fails on an empty list: with \<open>head\<close> the empty list 9
  and \<open>entry\<close> the head itself, \<^verbatim>\<open>list_cut_position\<close> returns before it touches
  \<open>dest\<close>, here the list 5 with the entries 6 and 7, which is not left empty.
\<close>

theorem list_cut_position_empty_head_counterexample:
  "dlist (INIT_LIST_HEAD 9 ex_heap) 9 []
   \<and> dlist (INIT_LIST_HEAD 9 ex_heap) 5 [6, 7]
   \<and> dlist (list_cut_position 5 9 9 (INIT_LIST_HEAD 9 ex_heap)) 5 [6, 7]
   \<and> \<not> list_empty (list_cut_position 5 9 9 (INIT_LIST_HEAD 9 ex_heap)) 5
   \<and> \<not> dlist (list_cut_position 5 9 9 (INIT_LIST_HEAD 9 ex_heap)) 5 []"
  by (simp add: list_cut_position_def list_empty_def INIT_LIST_HEAD_def Let_def
      dlist_def ex_heap_def)

lemma map_exchange_id: "a \<notin> set xs \<Longrightarrow> b \<notin> set xs \<Longrightarrow> map (exchange a b) xs = xs"
  by (induction xs) (auto simp: exchange_def)

lemma two_members_split:
  assumes "a \<in> set xs" "b \<in> set xs" "a \<noteq> b"
  shows "(\<exists>as ms cs. xs = as @ a # ms @ b # cs) \<or> (\<exists>as ms cs. xs = as @ b # ms @ a # cs)"
proof -
  obtain us vs where xs: "xs = us @ a # vs" using assms(1) by (auto dest: split_list)
  then have "b \<in> set us \<or> b \<in> set vs" using assms(2,3) by auto
  then show ?thesis
  proof
    assume "b \<in> set us"
    then obtain p q where "us = p @ b # q" by (auto dest: split_list)
    then have "xs = p @ b # q @ a # vs" using xs by simp
    then show ?thesis by blast
  next
    assume "b \<in> set vs"
    then obtain p q where "vs = p @ b # q" by (auto dest: split_list)
    then have "xs = us @ a # p @ b # q" using xs by simp
    then show ?thesis by blast
  qed
qed

lemma list_swap_same:
  assumes "dlist s h xs" "a \<in> set xs" "b \<in> set xs" "a \<noteq> b"
  shows "dlist (list_swap a b s) h (map (exchange a b) xs)"
proof -
  have d: "distinct (h # xs)" using assms(1) ring_distinct[of s "h # xs"] by (simp add: dlist_def)
  from two_members_split[OF assms(2-4)] show ?thesis
  proof (elim disjE exE)
    fix as ms cs assume xs: "xs = as @ a # ms @ b # cs"
    then have "map (exchange a b) xs = as @ b # ms @ a # cs"
      using d by (simp add: map_exchange_id) (simp add: exchange_def)
    then show ?thesis using list_swap_forward[of s h as a ms b cs] assms(1) xs by simp
  next
    fix as ms cs assume xs: "xs = as @ b # ms @ a # cs"
    then have "map (exchange a b) xs = as @ a # ms @ b # cs"
      using d by (simp add: map_exchange_id) (simp add: exchange_def)
    then show ?thesis using list_swap_backward[of s h as b ms a cs] assms(1) xs by simp
  qed
qed

lemma list_swap_two_lists:
  assumes "dlist s h1 xs" "dlist s h2 ys" "set (h1 # xs) \<inter> set (h2 # ys) = {}"
    "a \<in> set xs" "b \<in> set ys"
  shows "dlist (list_swap a b s) h1 (map (exchange a b) xs)
         \<and> dlist (list_swap a b s) h2 (map (exchange a b) ys)"
proof -
  have d: "distinct (h1 # xs)" "distinct (h2 # ys)"
    using assms(1,2) ring_distinct[of s "h1 # xs"] ring_distinct[of s "h2 # ys"]
    by (simp_all add: dlist_def)
  obtain as cs where xs: "xs = as @ a # cs" using assms(4) by (auto dest: split_list)
  obtain ds es where ys: "ys = ds @ b # es" using assms(5) by (auto dest: split_list)
  have ab: "a \<notin> set ys" "b \<notin> set xs" using assms(3-5) by auto
  have "map (exchange a b) xs = as @ b # cs"
    using d(1) ab xs by (simp add: map_exchange_id) (simp add: exchange_def)
  moreover have "map (exchange a b) ys = ds @ a # es"
    using d(2) ab ys by (simp add: map_exchange_id) (simp add: exchange_def)
  ultimately show ?thesis
    using list_swap_other[of s h1 as a cs h2 ds b es] assms(1-3) xs ys by simp
qed

text \<open>
  Claim C8. \<^verbatim>\<open>list_swap\<close> exchanges the positions of two distinct entries. In one
  list the entries are afterwards the former ones with \<open>a\<close> and \<open>b\<close> exchanged, in
  particular when \<open>b\<close> immediately follows \<open>a\<close>; for entries of two disjoint lists
  each list holds the other entry at the position of its own.
\<close>

theorem list_swap_exchanges:
  "(dlist s h xs \<and> a \<in> set xs \<and> b \<in> set xs \<and> a \<noteq> b
      \<longrightarrow> dlist (list_swap a b s) h (map (exchange a b) xs))
   \<and> (dlist s h (as @ a # b # cs) \<longrightarrow> dlist (list_swap a b s) h (as @ b # a # cs))
   \<and> (dlist s h xs \<and> dlist s h2 ys \<and> set (h # xs) \<inter> set (h2 # ys) = {}
       \<and> a \<in> set xs \<and> b \<in> set ys
      \<longrightarrow> dlist (list_swap a b s) h (map (exchange a b) xs)
          \<and> dlist (list_swap a b s) h2 (map (exchange a b) ys))"
  using list_swap_same[of s h xs a b] list_swap_forward[of s h as a "[]" b cs]
    list_swap_two_lists[of s h xs h2 ys a b]
  by simp

theorem list_swap_exchanges_witness:
  "dlist (list_swap 2 4 ex_heap) 1 [4, 3, 2]
   \<and> dlist (list_swap 4 2 ex_heap) 1 [4, 3, 2]
   \<and> dlist (list_swap 2 3 ex_heap) 1 [3, 2, 4]
   \<and> dlist (list_swap 3 6 ex_heap) 1 [2, 6, 4]
   \<and> dlist (list_swap 3 6 ex_heap) 5 [3, 7]"
  using list_swap_exchanges[of ex_heap 1 "[2, 3, 4]" 2 4 "[]" "[]" 5 "[6, 7]"]
    list_swap_exchanges[of ex_heap 1 "[2, 3, 4]" 4 2 "[]" "[]" 5 "[6, 7]"]
    list_swap_exchanges[of ex_heap 1 "[2, 3, 4]" 2 3 "[]" "[4]" 5 "[6, 7]"]
    list_swap_exchanges[of ex_heap 1 "[2, 3, 4]" 3 6 "[]" "[]" 5 "[6, 7]"]
  by (simp add: ex_heap_lists exchange_def)

section \<open>Safe iteration\<close>

lemma dlist_next_head: "dlist s h xs \<Longrightarrow> next (s h) = hd (xs @ [h])"
  by (cases xs) (auto simp: dlist_def)

lemma dlist_next_first: "dlist s h (x # xs) \<Longrightarrow> next (s x) = hd (xs @ [h])"
  by (cases xs) (auto simp: dlist_def)

lemma list_for_each_safe_from_removing:
  assumes body: "\<And>s x xs. dlist s h (x # xs) \<Longrightarrow> dlist (body x s) h xs"
  shows "dlist s h xs \<Longrightarrow> length xs < fuel \<Longrightarrow>
         list_for_each_safe_from fuel body h (hd (xs @ [h])) (next (s (hd (xs @ [h])))) s
           = Some (xs, fold body xs s)"
proof (induction xs arbitrary: s fuel)
  case Nil
  then show ?case by (cases fuel) auto
next
  case (Cons x xs)
  obtain k where k: "fuel = Suc k" using Cons.prems(2) by (cases fuel) auto
  have xh: "x \<noteq> h" using Cons.prems(1) by (auto simp: dlist_def)
  have d1: "dlist (body x s) h xs" by (rule body[OF Cons.prems(1)])
  have "list_for_each_safe_from k body h (hd (xs @ [h]))
          (next (body x s (hd (xs @ [h])))) (body x s) = Some (xs, fold body xs (body x s))"
    using Cons.IH[OF d1] Cons.prems(2) k by simp
  then show ?case
    using xh k dlist_next_first[OF Cons.prems(1)] by (simp add: Let_def)
qed

lemma list_for_each_safe_removing:
  assumes body: "\<And>s x xs. dlist s h (x # xs) \<Longrightarrow> dlist (body x s) h xs"
    and "dlist s h xs" "length xs < fuel"
  shows "list_for_each_safe fuel body h s = Some (xs, fold body xs s)"
  using list_for_each_safe_from_removing[of h body s xs fuel, OF body assms(2,3)]
    dlist_next_head[OF assms(2)]
  by (simp add: list_for_each_safe_def Let_def)

lemma fold_removing:
  assumes body: "\<And>s x xs. dlist s h (x # xs) \<Longrightarrow> dlist (body x s) h xs"
  shows "dlist s h xs \<Longrightarrow> dlist (fold body xs s) h []"
  by (induction xs arbitrary: s) (auto intro: body)

lemma list_for_each_entry_safe_from_eq:
  "list_for_each_entry_safe_from fuel (\<lambda>pos. f (pos + member)) h member pos n s
     = map_option (\<lambda>(vs, t). (map (\<lambda>v. container_of v member) vs, t))
         (list_for_each_safe_from fuel f h (pos + member) (n + member) s)"
proof (induction fuel arbitrary: pos n s)
  case 0
  then show ?case by simp
next
  case (Suc k)
  show ?case
    by (simp add: Suc.IH list_entry_is_head_def list_next_entry_def list_entry_def
        container_of_def Let_def option.map_comp comp_def case_prod_unfold)
qed

lemma list_for_each_entry_safe_eq:
  "list_for_each_entry_safe fuel (\<lambda>pos. f (pos + member)) h member s
     = map_option (\<lambda>(vs, t). (map (\<lambda>v. container_of v member) vs, t))
         (list_for_each_safe fuel f h s)"
  by (simp add: list_for_each_entry_safe_def list_for_each_safe_def Let_def
      list_for_each_entry_safe_from_eq list_first_entry_def list_next_entry_def
      list_entry_def container_of_def)

lemma list_del_first: "dlist s h (x # xs) \<Longrightarrow> dlist (list_del x s) h xs"
  using list_del_dlist[of s h "[]" x xs] by simp

lemma list_del_init_first: "dlist s h (x # xs) \<Longrightarrow> dlist (list_del_init x s) h xs"
  using list_del_init_dlist[of s h "[]" x xs] by simp

text \<open>
  Claim C6. On a well-formed list with the entries \<open>xs\<close> (none, one or many), the
  safe loop whose body deletes the node it is handed ends, for every fuel above
  the length of the list; the body has run on exactly the nodes \<open>xs\<close>, in list
  order and each once, and the head is left an empty list. The same holds for the
  entry variant, whose cursor is the structure embedding the node at offset
  \<open>member\<close>, and for a body that uses \<^verbatim>\<open>list_del_init\<close>.
\<close>

theorem safe_iteration_deleting:
  assumes "dlist s h xs" "length xs < fuel"
  shows "list_for_each_safe fuel list_del h s = Some (xs, fold list_del xs s)
         \<and> dlist (fold list_del xs s) h [] \<and> distinct xs
         \<and> list_for_each_entry_safe fuel (\<lambda>pos. list_del (pos + member)) h member s
            = Some (map (\<lambda>x. container_of x member) xs, fold list_del xs s)
         \<and> list_for_each_safe fuel list_del_init h s = Some (xs, fold list_del_init xs s)
         \<and> dlist (fold list_del_init xs s) h []"
proof -
  have a: "list_for_each_safe fuel list_del h s = Some (xs, fold list_del xs s)"
    by (rule list_for_each_safe_removing[OF list_del_first assms])
  have b: "list_for_each_safe fuel list_del_init h s = Some (xs, fold list_del_init xs s)"
    by (rule list_for_each_safe_removing[OF list_del_init_first assms])
  have "distinct xs" using assms(1) ring_distinct[of s "h # xs"] by (simp add: dlist_def)
  then show ?thesis
    using a b fold_removing[of h list_del s xs, OF list_del_first assms(1)]
      fold_removing[of h list_del_init s xs, OF list_del_init_first assms(1)]
    by (simp add: list_for_each_entry_safe_eq)
qed

theorem safe_iteration_deleting_witness:
  "list_for_each_safe 4 list_del 1 ex_heap = Some ([2, 3, 4], fold list_del [2, 3, 4] ex_heap)
   \<and> dlist (fold list_del [2, 3, 4] ex_heap) 1 []
   \<and> list_for_each_entry_safe 4 (\<lambda>pos. list_del (pos + 16)) 1 16 ex_heap
      = Some ([container_of 2 16, container_of 3 16, container_of 4 16],
              fold list_del [2, 3, 4] ex_heap)
   \<and> list_for_each_safe 1 list_del 9 (INIT_LIST_HEAD 9 ex_heap)
      = Some ([], INIT_LIST_HEAD 9 ex_heap)"
  using safe_iteration_deleting[of ex_heap 1 "[2, 3, 4]" 4 16]
    safe_iteration_deleting[of "INIT_LIST_HEAD 9 ex_heap" 9 "[]" 1 16]
  by (simp add: ex_heap_lists dlist_INIT)

section \<open>Hash list memory\<close>

lemma heads_set [simp]:
  "first (heads (set_first h v s) g) = (if g = h then v else first (heads s g))"
  "heads (set_hnext n v s) = heads s"
  "heads (set_pprev n w s) = heads s"
  by (simp_all add: set_first_def set_hnext_def set_pprev_def)

lemma nodes_set [simp]:
  "nodes (set_first h v s) = nodes s"
  "hnext (nodes (set_hnext n v s) m) = (if m = n then v else hnext (nodes s m))"
  "pprev (nodes (set_hnext n v s) m) = pprev (nodes s m)"
  "hnext (nodes (set_pprev n w s) m) = hnext (nodes s m)"
  "pprev (nodes (set_pprev n w s) m) = (if m = n then w else pprev (nodes s m))"
  by (simp_all add: set_first_def set_hnext_def set_pprev_def)

lemma load_set [simp]:
  "load (set_first h v s) sl = (if sl = Head_first h then Some v else load s sl)"
  "load (set_hnext n v s) sl = (if sl = Node_next n then Some v else load s sl)"
  "load (set_pprev n w s) sl = load s sl"
  by (cases sl; simp)+

lemma store_fields [simp]:
  "pprev (nodes (store sl v s) m) = pprev (nodes s m)"
  "load (store sl v s) sl' = (if sl' = sl \<and> (\<forall>a. sl \<noteq> Raw a) then Some v else load s sl')"
  by (cases sl; simp)+

lemma hseg_append [simp]:
  "hseg s sl (as @ x # bs) t =
     (hseg s sl as x \<and> pprev (nodes s x) = (if as = [] then sl else Node_next (last as))
      \<and> hseg s (Node_next x) bs t)"
  by (induction as arbitrary: sl) auto

lemma hseg_snoc [simp]:
  "hseg s sl (as @ [x]) t =
     (hseg s sl as x \<and> pprev (nodes s x) = (if as = [] then sl else Node_next (last as))
      \<and> hnext (nodes s x) = t)"
  using hseg_append[of s sl as x "[]" t] by simp

lemma hseg_set_pprev [simp]:
  "n \<notin> set xs \<Longrightarrow> hseg (set_pprev n w s) sl xs t = hseg s sl xs t"
  by (induction xs arbitrary: sl) auto

lemma hseg_set_hnext [simp]:
  "n \<notin> set xs \<Longrightarrow> sl \<noteq> Node_next n \<Longrightarrow> hseg (set_hnext n v s) sl xs t = hseg s sl xs t"
  by (induction xs arbitrary: sl) auto

lemma hseg_set_first [simp]:
  "sl \<noteq> Head_first h \<Longrightarrow> hseg (set_first h v s) sl xs t = hseg s sl xs t"
  by (induction xs arbitrary: sl) auto

lemma hseg_load_not_raw: "hseg s sl xs t \<Longrightarrow> sl \<noteq> Raw a"
  by (cases xs) auto

lemmas hlist_defs = INIT_HLIST_HEAD_def INIT_HLIST_NODE_def raw_hlist_del_def hlist_del_def
  hlist_del_init_def hlist_add_head_def hlist_add_before_def hlist_add_behind_def
  hlist_move_list_def hlist_unhashed_def Let_def

lemma INIT_HLIST_HEAD_hlist: "hlist (INIT_HLIST_HEAD h s) h []"
  by (simp add: hlist_def hlist_defs)

lemma INIT_HLIST_NODE_hlist:
  "hlist s h xs \<Longrightarrow> n \<notin> set xs \<Longrightarrow> hlist (INIT_HLIST_NODE n s) h xs"
  by (simp add: hlist_def hlist_defs)

lemma hlist_add_head_hlist:
  "hlist s h xs \<Longrightarrow> n \<notin> set xs \<Longrightarrow> n \<noteq> NULL \<Longrightarrow> hlist (hlist_add_head n h s) h (n # xs)"
  by (cases xs) (auto simp: hlist_def hlist_defs)

lemma hlist_add_before_hlist:
  "hlist s h (as @ x # bs) \<Longrightarrow> n \<notin> set (as @ x # bs) \<Longrightarrow> n \<noteq> NULL \<Longrightarrow>
   hlist (hlist_add_before n x s) h (as @ n # x # bs)"
  by (cases as rule: rev_cases) (auto simp: hlist_def hlist_defs)

lemma hlist_add_behind_hlist:
  "hlist s h (as @ x # bs) \<Longrightarrow> n \<notin> set (as @ x # bs) \<Longrightarrow> n \<noteq> NULL \<Longrightarrow>
   hlist (hlist_add_behind n x s) h (as @ x # n # bs)"
  by (cases bs) (auto simp: hlist_def hlist_defs)

lemma raw_hlist_del_hlist:
  "hlist s h (as @ n # bs) \<Longrightarrow> hlist (raw_hlist_del n s) h (as @ bs)"
  by (cases as rule: rev_cases; cases bs) (auto simp: hlist_def hlist_defs)

lemma hlist_del_hlist:
  "hlist s h (as @ n # bs) \<Longrightarrow> hlist (hlist_del n s) h (as @ bs)"
  using raw_hlist_del_hlist[of s h as n bs]
  by (simp add: hlist_def hlist_del_def Let_def)

lemma hlist_hashed: "hlist s h xs \<Longrightarrow> n \<in> set xs \<Longrightarrow> \<not> hlist_unhashed s n"
proof -
  assume a: "hlist s h xs" "n \<in> set xs"
  then obtain as bs where "xs = as @ n # bs" by (auto dest: split_list)
  then show ?thesis using a(1) by (auto simp: hlist_def hlist_unhashed_def)
qed

lemma hlist_del_init_hlist:
  assumes "hlist s h (as @ n # bs)"
  shows "hlist (hlist_del_init n s) h (as @ bs) \<and> hlist_unhashed (hlist_del_init n s) n"
proof -
  have "\<not> hlist_unhashed s n" using hlist_hashed[OF assms] by simp
  then show ?thesis
    using raw_hlist_del_hlist[OF assms] assms
    by (simp add: hlist_def hlist_del_init_def INIT_HLIST_NODE_def hlist_unhashed_def Let_def)
qed

lemma hlist_move_list_hlist:
  "hlist s old xs \<Longrightarrow> old \<noteq> new \<Longrightarrow>
   hlist (hlist_move_list old new s) new xs \<and> hlist (hlist_move_list old new s) old []"
  by (cases xs) (auto simp: hlist_def hlist_defs)

lemma hseg_hlinked:
  "hseg s sl xs NULL \<Longrightarrow> n \<in> set xs \<Longrightarrow> hlinked s n"
proof (induction xs arbitrary: sl)
  case Nil
  then show ?case by simp
next
  case (Cons x xs)
  show ?case
  proof (cases "n = x")
    case True
    then show ?thesis using Cons.prems(1) by (cases xs) (auto simp: hlinked_def)
  next
    case False
    then show ?thesis using Cons.IH[of "Node_next x"] Cons.prems by auto
  qed
qed

lemma hlist_hlist_inv: "hlist s h xs \<Longrightarrow> hlist_inv s h xs"
  unfolding hlist_inv_def hlist_def using hseg_hlinked by blast

lemma ex_hmem_hlist: "hlist ex_hmem 1 [2, 3, 4]" "hlist ex_hmem 5 [6, 7]" "hlist ex_hmem 9 []"
  by (simp_all add: hlist_def ex_hmem_def NULL_def)

lemma hseg_store [simp]:
  "sl' \<noteq> sl \<Longrightarrow> \<forall>z \<in> set zs. sl' \<noteq> Node_next z \<Longrightarrow>
   hseg (store sl' v s) sl zs t = hseg s sl zs t"
  by (induction zs arbitrary: sl) auto

lemma hlist_other_heads:
  assumes "hlist s h xs" "hlist s h3 zs" "h3 \<noteq> h" "h3 \<noteq> h2" "n \<notin> set zs"
    "set zs \<inter> set xs = {}"
  shows "hlist (INIT_HLIST_HEAD h s) h3 zs"
    "hlist (hlist_add_head n h s) h3 zs"
    "hlist (hlist_move_list h h2 s) h3 zs"
  using assms
  by (cases xs; auto simp: hlist_def hlist_defs)+

lemma hlist_other_nodes:
  assumes "hlist s h (as @ x # bs)" "hlist s h3 zs" "h3 \<noteq> h" "n \<notin> set zs"
    "set zs \<inter> set (as @ x # bs) = {}"
  shows "hlist (hlist_add_before n x s) h3 zs"
    "hlist (hlist_add_behind n x s) h3 zs"
    "hlist (hlist_del x s) h3 zs"
    "hlist (hlist_del_init x s) h3 zs"
  using assms
  by (cases as rule: rev_cases; cases bs; auto simp: hlist_def hlist_defs)+

text \<open>
  Claim C2. Every hash-list operation, applied to a well-formed list and to nodes
  as its documentation asks (a node to add is non-null and not in the list, a
  reference node and a node to delete are in the list, the two heads of a move
  differ), leaves the list well formed with the stated nodes, and every node \<open>n\<close>
  of it satisfies \<^verbatim>\<open>*(n.pprev) == n\<close> and, when \<^verbatim>\<open>n.next\<close> is not null,
  \<^verbatim>\<open>n.next.pprev == &n.next\<close>. The last two parts are about a well-formed
  list rooted at another head \<open>h3\<close> that shares no node with the list operated on
  and does not hold the node added: it stays as it is.
\<close>

theorem hlist_operations_keep_invariant:
  "hlist_inv (INIT_HLIST_HEAD h s) h []
   \<and> (hlist s h xs \<and> n \<notin> set xs \<longrightarrow> hlist_inv (INIT_HLIST_NODE n s) h xs)
   \<and> (hlist s h xs \<and> n \<notin> set xs \<and> n \<noteq> NULL
        \<longrightarrow> hlist_inv (hlist_add_head n h s) h (n # xs))
   \<and> (hlist s h (as @ x # bs) \<and> n \<notin> set (as @ x # bs) \<and> n \<noteq> NULL
        \<longrightarrow> hlist_inv (hlist_add_before n x s) h (as @ n # x # bs))
   \<and> (hlist s h (as @ x # bs) \<and> n \<notin> set (as @ x # bs) \<and> n \<noteq> NULL
        \<longrightarrow> hlist_inv (hlist_add_behind n x s) h (as @ x # n # bs))
   \<and> (hlist s h (as @ x # bs) \<longrightarrow> hlist_inv (hlist_del x s) h (as @ bs))
   \<and> (hlist s h (as @ x # bs)
        \<longrightarrow> hlist_inv (hlist_del_init x s) h (as @ bs) \<and> hlist_unhashed (hlist_del_init x s) x)
   \<and> (hlist s h xs \<and> h \<noteq> h2
        \<longrightarrow> hlist_inv (hlist_move_list h h2 s) h2 xs \<and> hlist_inv (hlist_move_list h h2 s) h [])
   \<and> (hlist s h xs \<and> hlist s h3 zs \<and> h3 \<noteq> h \<and> h3 \<noteq> h2 \<and> n \<notin> set zs
        \<and> set zs \<inter> set xs = {}
        \<longrightarrow> hlist_inv (INIT_HLIST_HEAD h s) h3 zs
            \<and> hlist_inv (hlist_add_head n h s) h3 zs
            \<and> hlist_inv (hlist_move_list h h2 s) h3 zs)
   \<and> (hlist s h (as @ x # bs) \<and> hlist s h3 zs \<and> h3 \<noteq> h \<and> n \<notin> set zs
        \<and> set zs \<inter> set (as @ x # bs) = {}
        \<longrightarrow> hlist_inv (hlist_add_before n x s) h3 zs
            \<and> hlist_inv (hlist_add_behind n x s) h3 zs
            \<and> hlist_inv (hlist_del x s) h3 zs
            \<and> hlist_inv (hlist_del_init x s) h3 zs)"
proof -
  note I = hlist_hlist_inv
  show ?thesis
    apply (intro conjI impI)
    subgoal by (rule I[OF INIT_HLIST_HEAD_hlist])
    subgoal by (rule I[OF INIT_HLIST_NODE_hlist]) auto
    subgoal by (rule I[OF hlist_add_head_hlist]) auto
    subgoal by (rule I[OF hlist_add_before_hlist]) auto
    subgoal by (rule I[OF hlist_add_behind_hlist]) auto
    subgoal by (rule I[OF hlist_del_hlist])
    subgoal by (rule I[OF hlist_del_init_hlist[THEN conjunct1]])
    subgoal by (rule hlist_del_init_hlist[THEN conjunct2])
    subgoal by (rule I[OF hlist_move_list_hlist[THEN conjunct1]]) auto
    subgoal by (rule I[OF hlist_move_list_hlist[THEN conjunct2]]) auto
    subgoal by (rule I[OF hlist_other_heads(1)[of s h xs h3 zs h2 n]]) auto
    subgoal by (rule I[OF hlist_other_heads(2)[of s h xs h3 zs h2 n]]) auto
    subgoal by (rule I[OF hlist_other_heads(3)[of s h xs h3 zs h2 n]]) auto
    subgoal by (rule I[OF hlist_other_nodes(1)[of s h as x bs h3 zs n]]) auto
    subgoal by (rule I[OF hlist_other_nodes(2)[of s h as x bs h3 zs n]]) auto
    subgoal by (rule I[OF hlist_other_nodes(3)[of s h as x bs h3 zs n]]) auto
    subgoal by (rule I[OF hlist_other_nodes(4)[of s h as x bs h3 zs n]]) auto
    done
qed

theorem hlist_operations_keep_invariant_witness:
  "hlist_inv (INIT_HLIST_HEAD 1 ex_hmem) 1 []
   \<and> hlist_inv (INIT_HLIST_NODE 8 ex_hmem) 1 [2, 3, 4]
   \<and> hlist_inv (hlist_add_head 8 1 ex_hmem) 1 [8, 2, 3, 4]
   \<and> hlist_inv (hlist_add_before 8 3 ex_hmem) 1 [2, 8, 3, 4]
   \<and> hlist_inv (hlist_add_behind 8 3 ex_hmem) 1 [2, 3, 8, 4]
   \<and> hlist_inv (hlist_del 3 ex_hmem) 1 [2, 4]
   \<and> hlist_inv (hlist_del_init 3 ex_hmem) 1 [2, 4]
   \<and> hlist_unhashed (hlist_del_init 3 ex_hmem) 3
   \<and> hlist_inv (hlist_move_list 1 9 ex_hmem) 9 [2, 3, 4]
   \<and> hlist_inv (hlist_move_list 1 9 ex_hmem) 1 []
   \<and> hlist_inv (INIT_HLIST_HEAD 1 ex_hmem) 5 [6, 7]
   \<and> hlist_inv (hlist_add_head 8 1 ex_hmem) 5 [6, 7]
   \<and> hlist_inv (hlist_move_list 1 9 ex_hmem) 5 [6, 7]
   \<and> hlist_inv (hlist_add_before 8 3 ex_hmem) 5 [6, 7]
   \<and> hlist_inv (hlist_add_behind 8 3 ex_hmem) 5 [6, 7]
   \<and> hlist_inv (hlist_del 3 ex_hmem) 5 [6, 7]
   \<and> hlist_inv (hlist_del_init 3 ex_hmem) 5 [6, 7]"
  using hlist_operations_keep_invariant[where h = 1 and s = ex_hmem and xs = "[2, 3, 4]"
      and n = 8 and as = "[2]" and x = 3 and bs = "[4]" and ?h2.0 = 9 and ?h3.0 = 5
      and zs = "[6, 7]"]
  by (simp add: ex_hmem_hlist NULL_def)

lemma store_other_fields [simp]:
  "hnext (nodes (store sl v s) m) = (if sl = Node_next m then v else hnext (nodes s m))"
  "first (heads (store sl v s) g) = (if sl = Head_first g then v else first (heads s g))"
  by (cases sl; simp)+

lemma hlist_del_frame:
  assumes "hlist s h (as @ n # bs)"
  shows "(m \<noteq> n \<and> m \<notin> set (take 1 bs) \<longrightarrow> pprev (nodes (hlist_del n s) m) = pprev (nodes s m))
       \<and> (m \<noteq> n \<and> (as = [] \<or> m \<noteq> last as)
            \<longrightarrow> hnext (nodes (hlist_del n s) m) = hnext (nodes s m))
       \<and> (as \<noteq> [] \<or> g \<noteq> h \<longrightarrow> first (heads (hlist_del n s) g) = first (heads s g))"
  using assms
  by (cases as rule: rev_cases; cases bs) (auto simp: hlist_def hlist_defs)

text \<open>
  Claim C7. Let \<open>n\<close> be a node of a well-formed hash list, \<open>as\<close> the nodes before
  it and \<open>bs\<close> the nodes after it. \<^verbatim>\<open>hlist_del(n)\<close> changes no \<open>pprev\<close> field but
  those of \<open>n\<close> and of its successor (the first of \<open>bs\<close>, if there is one), no
  \<open>next\<close> field but those of \<open>n\<close> and of its predecessor (the last of \<open>as\<close>, if
  there is one), and no head but the head of the list, and that only when \<open>n\<close> is
  the first node. For an interior node no head changes at all.
\<close>

theorem hlist_del_frame_effect:
  assumes "hlist s h (as @ n # bs)"
  shows "(\<forall>m. m \<noteq> n \<and> m \<notin> set (take 1 bs)
              \<longrightarrow> pprev (nodes (hlist_del n s) m) = pprev (nodes s m))
       \<and> (\<forall>m. m \<noteq> n \<and> (as = [] \<or> m \<noteq> last as)
              \<longrightarrow> hnext (nodes (hlist_del n s) m) = hnext (nodes s m))
       \<and> (\<forall>g. as \<noteq> [] \<or> g \<noteq> h
              \<longrightarrow> first (heads (hlist_del n s) g) = first (heads s g))"
  using hlist_del_frame[OF assms] by blast

theorem hlist_del_frame_effect_witness:
  "pprev (nodes (hlist_del 3 ex_hmem) 2) = pprev (nodes ex_hmem 2)
   \<and> hnext (nodes (hlist_del 3 ex_hmem) 4) = hnext (nodes ex_hmem 4)
   \<and> pprev (nodes (hlist_del 3 ex_hmem) 8) = pprev (nodes ex_hmem 8)
   \<and> hnext (nodes (hlist_del 3 ex_hmem) 8) = hnext (nodes ex_hmem 8)
   \<and> first (heads (hlist_del 3 ex_hmem) 1) = first (heads ex_hmem 1)
   \<and> first (heads (hlist_del 3 ex_hmem) 5) = first (heads ex_hmem 5)"
  using hlist_del_frame_effect[of ex_hmem 1 "[2]" 3 "[4]"]
  by (simp add: ex_hmem_hlist)

lemma hlist_del_init_unhashed: "hlist_unhashed s n \<Longrightarrow> hlist_del_init n s = s"
  by (simp add: hlist_del_init_def)

lemma hlist_del_init_leaves_unhashed: "hlist_unhashed (hlist_del_init n s) n"
  by (simp add: hlist_del_init_def INIT_HLIST_NODE_def hlist_unhashed_def Let_def)

lemma hlist_del_init_twice: "hlist_del_init n (hlist_del_init n s) = hlist_del_init n s"
  by (rule hlist_del_init_unhashed[OF hlist_del_init_leaves_unhashed])

lemma list_del_init_twice: "list_del_init e (list_del_init e s) = list_del_init e s"
  by (rule ext)
     (simp add: list_del_init_def raw_list_del_entry_def raw_list_del_def INIT_LIST_HEAD_def
        Let_def set_next_def set_prev_def)

text \<open>
  Claim C9, as the code has it. \<^verbatim>\<open>hlist_del_init\<close> on an unhashed node writes
  nothing, and on a node of a well-formed hash list it leaves the node unhashed,
  so a second call in a row changes nothing more. The doubly linked
  \<^verbatim>\<open>list_del_init\<close> can be repeated as well: it leaves the entry linked to
  itself, and a second call on such an entry writes the pointers it already holds.
\<close>

theorem del_init_idempotent:
  "(hlist_unhashed s n \<longrightarrow> hlist_del_init n s = s)
   \<and> (hlist_unhashed s n \<or> (hlist s h xs \<and> n \<in> set xs)
        \<longrightarrow> hlist_unhashed (hlist_del_init n s) n
            \<and> hlist_del_init n (hlist_del_init n s) = hlist_del_init n s)
   \<and> (dlist l k (as @ e # bs)
        \<longrightarrow> dlist (list_del_init e l) e []
            \<and> list_del_init e (list_del_init e l) = list_del_init e l)"
  using list_del_init_dlist[of l k as e bs]
  by (simp add: hlist_del_init_unhashed hlist_del_init_leaves_unhashed hlist_del_init_twice
      list_del_init_twice)

theorem del_init_idempotent_witness:
  "hlist_del_init 8 ex_hmem = ex_hmem
   \<and> hlist_unhashed (hlist_del_init 3 ex_hmem) 3
   \<and> hlist_del_init 3 (hlist_del_init 3 ex_hmem) = hlist_del_init 3 ex_hmem
   \<and> dlist (list_del_init 3 ex_heap) 3 []
   \<and> list_del_init 3 (list_del_init 3 ex_heap) = list_del_init 3 ex_heap"
proof -
  have u: "hlist_unhashed ex_hmem 8" by (simp add: hlist_unhashed_def ex_hmem_def NULL_def)
  show ?thesis
    using del_init_idempotent[of ex_hmem 8 1 "[2, 3, 4]" ex_heap 1 "[2]" 3 "[4]"]
      del_init_idempotent[of ex_hmem 3 1 "[2, 3, 4]" ex_heap 1 "[2]" 3 "[4]"] u
    by (simp add: ex_hmem_hlist ex_heap_lists)
qed

text \<open>
  The claim as it is written says that removing an entry twice with
  \<^verbatim>\<open>list_del_init\<close> is undefined. On the list 1 with the entries 2, 3, 4 the first
  \<^verbatim>\<open>list_del_init(3)\<close> leaves 3 an empty list of its own, the second reads and
  writes that structure alone, and the memory after two calls is the memory after
  one.
\<close>

theorem list_del_init_twice_counterexample:
  "dlist ex_heap 1 [2, 3, 4]
   \<and> dlist (list_del_init 3 ex_heap) 1 [2, 4]
   \<and> next (list_del_init 3 ex_heap 3) = 3
   \<and> prev (list_del_init 3 ex_heap 3) = 3
   \<and> dlist (list_del_init 3 (list_del_init 3 ex_heap)) 1 [2, 4]
   \<and> dlist (list_del_init 3 (list_del_init 3 ex_heap)) 3 []
   \<and> list_del_init 3 (list_del_init 3 ex_heap) = list_del_init 3 ex_heap"
  using list_del_init_dlist[of ex_heap 1 "[2]" 3 "[4]"]
  by (simp add: list_del_init_twice ex_heap_lists)
     (simp add: list_del_init_def INIT_LIST_HEAD_def Let_def)

end
